theory Spec2Isabelle
  imports Main "HOL-Library.Char_ord"
begin

section \<open>JavaScript values\<close>

text \<open>
  The repository is TypeScript: \<^verbatim>\<open>TypeSafeStorage\<close> wraps React Native's
  \<^verbatim>\<open>AsyncStorage\<close>, and \<^verbatim>\<open>ValueParser\<close> holds the conversions between values
  and strings. Both are written in terms of the language's built-ins (\<^verbatim>\<open>typeof\<close>,
  \<^verbatim>\<open>JSON.stringify\<close>, \<^verbatim>\<open>JSON.parse\<close>, \<^verbatim>\<open>parseFloat\<close>, \<^verbatim>\<open>isNaN\<close>, \<^verbatim>\<open>==\<close>), so the
  embedding starts with the values those built-ins work on.

  Scope of the value model:
  \<^item> a number is \<^verbatim>\<open>NaN\<close>, an infinity, or a finite decimal \<open>Fin m e\<close> standing for
    \<open>m * 10^e\<close>. Decimal literals are read exactly: the rounding of a literal to the
    nearest binary64 value is not modelled, and \<open>-0\<close> is identified with \<open>0\<close>;
  \<^item> a string is a list of 8-bit code units (\<^typ>\<open>string\<close>); code units above
    \<open>0xFF\<close> are outside the model;
  \<^item> an object is the list of its own enumerable string-keyed properties in property
    order; functions, symbols, dates and \<^verbatim>\<open>toJSON\<close> methods are outside the model.
\<close>

datatype jsnum = NaN | PosInfinity | NegInfinity | Fin int int

datatype jsval =
    JUndefined
  | JNull
  | JBool bool
  | JNum jsnum
  | JStr string
  | JArr "jsval list"
  | JObj "(string \<times> jsval) list"

datatype error =
    SyntaxError
  | Error string
  | OutsideModel
  | OutOfFuel

type_synonym 'a result = "error + 'a"

text \<open>The \<^verbatim>\<open>typeof\<close> operator.\<close>

fun typeof :: "jsval \<Rightarrow> string" where
  "typeof JUndefined = ''undefined''"
| "typeof JNull = ''object''"
| "typeof (JBool b) = ''boolean''"
| "typeof (JNum n) = ''number''"
| "typeof (JStr s) = ''string''"
| "typeof (JArr xs) = ''object''"
| "typeof (JObj kvs) = ''object''"

text \<open>\<^verbatim>\<open>ToBoolean\<close>: what \<^verbatim>\<open>!v\<close> negates.\<close>

fun truthy :: "jsval \<Rightarrow> bool" where
  "truthy JUndefined = False"
| "truthy JNull = False"
| "truthy (JBool b) = b"
| "truthy (JNum NaN) = False"
| "truthy (JNum (Fin m e)) = (m \<noteq> 0)"
| "truthy (JNum n) = True"
| "truthy (JStr s) = (s \<noteq> [])"
| "truthy (JArr xs) = True"
| "truthy (JObj kvs) = True"

section \<open>Numbers and their string forms\<close>

definition is_digit :: "char \<Rightarrow> bool" where
  "is_digit c = (CHR ''0'' \<le> c \<and> c \<le> CHR ''9'')"

definition digit_val :: "char \<Rightarrow> nat" where
  "digit_val c = of_char c - 48"

definition digit_char :: "nat \<Rightarrow> char" where
  "digit_char d = ''0123456789'' ! (d mod 10)"

text \<open>The value of a run of decimal digits, most significant first.\<close>

fun digits_val_acc :: "nat \<Rightarrow> string \<Rightarrow> nat" where
  "digits_val_acc acc [] = acc"
| "digits_val_acc acc (c # cs) = digits_val_acc (10 * acc + digit_val c) cs"

definition digits_val :: "string \<Rightarrow> nat" where
  "digits_val ds = digits_val_acc 0 ds"

text \<open>The decimal digits of a natural number, without leading zeros.\<close>

function digits_of :: "nat \<Rightarrow> string" where
  "digits_of n =
     (if n < 10 then [digit_char n] else digits_of (n div 10) @ [digit_char (n mod 10)])"
  by pat_completeness auto
termination
  by (relation "measure id") auto

declare digits_of.simps [simp del]

text \<open>
  The normal form of a finite decimal: zero is \<open>(0, 0)\<close>, and a non-zero mantissa
  does not end in the digit 0. Two finite numbers of the model are the same number
  exactly when their normal forms are equal.
\<close>

function norm_dec :: "int \<Rightarrow> int \<Rightarrow> int \<times> int" where
  "norm_dec m e =
     (if m = 0 then (0, 0)
      else if m mod 10 = 0 then norm_dec (m div 10) (e + 1)
      else (m, e))"
  by pat_completeness auto
termination
  by (relation "measure (\<lambda>(m, e). nat \<bar>m\<bar>)") auto

declare norm_dec.simps [simp del]

definition mk_num :: "bool \<Rightarrow> string \<Rightarrow> int \<Rightarrow> jsnum" where
  "mk_num neg ds e =
     (let m = int (digits_val ds);
          (m', e') = norm_dec (if neg then - m else m) e
      in Fin m' e')"

text \<open>
  \<^verbatim>\<open>Number::toString\<close> (radix 10) of ECMA-262: with \<open>k\<close> the number of significant
  digits and \<open>n = k + e\<close> the position of the decimal point, the four layouts are plain
  integer, decimal point inside the digits, leading \<open>0.000\<close>, and exponent form.
\<close>

definition pos_to_string :: "string \<Rightarrow> int \<Rightarrow> string" where
  "pos_to_string ds n =
     (let k = int (length ds) in
      if k \<le> n \<and> n \<le> 21 then ds @ replicate (nat (n - k)) CHR ''0''
      else if 0 < n \<and> n \<le> 21 then take (nat n) ds @ ''.'' @ drop (nat n) ds
      else if - 6 < n \<and> n \<le> 0 then ''0.'' @ replicate (nat (- n)) CHR ''0'' @ ds
      else
        (let ex = n - 1;
             es = (if ex < 0 then ''-'' else ''+'') @ digits_of (nat \<bar>ex\<bar>)
         in if k = 1 then ds @ ''e'' @ es
            else take 1 ds @ ''.'' @ drop 1 ds @ ''e'' @ es))"

fun num_to_string :: "jsnum \<Rightarrow> string" where
  "num_to_string NaN = ''NaN''"
| "num_to_string PosInfinity = ''Infinity''"
| "num_to_string NegInfinity = ''-Infinity''"
| "num_to_string (Fin m e) =
     (let (m', e') = norm_dec m e in
      if m' = 0 then ''0''
      else
        (let ds = digits_of (nat \<bar>m'\<bar>)
         in (if m' < 0 then ''-'' else []) @ pos_to_string ds (int (length ds) + e')))"

fun isNaN :: "jsnum \<Rightarrow> bool" where
  "isNaN NaN = True"
| "isNaN n = False"

fun is_finite :: "jsnum \<Rightarrow> bool" where
  "is_finite (Fin m e) = True"
| "is_finite n = False"


text \<open>
  \<^verbatim>\<open>Number::equal\<close>, the comparison behind \<^verbatim>\<open>==\<close> and \<^verbatim>\<open>===\<close> on two numbers:
  \<^verbatim>\<open>NaN\<close> equals nothing, and two finite numbers are equal when they denote the same
  value.
\<close>

fun norm_num :: "jsnum \<Rightarrow> jsnum" where
  "norm_num (Fin m e) = (let (m', e') = norm_dec m e in Fin m' e')"
| "norm_num n = n"

definition num_equal :: "jsnum \<Rightarrow> jsnum \<Rightarrow> bool" where
  "num_equal x y = (if isNaN x \<or> isNaN y then False else norm_num x = norm_num y)"

section \<open>Reading numbers from strings: \<^verbatim>\<open>parseFloat\<close> and \<^verbatim>\<open>ToNumber\<close>\<close>

text \<open>
  \<^verbatim>\<open>StrWhiteSpaceChar\<close> restricted to 8-bit code units: TAB, LF, VT, FF, CR, space
  and NBSP.
\<close>

definition is_js_space :: "char \<Rightarrow> bool" where
  "is_js_space c = (c \<in> set [CHR 0x09, CHR 0x0A, CHR 0x0B, CHR 0x0C, CHR 0x0D, CHR 0x20, CHR 0xA0])"

definition scan_sign :: "string \<Rightarrow> bool \<times> string" where
  "scan_sign s =
     (case s of
        [] \<Rightarrow> (False, [])
      | c # r \<Rightarrow>
          if c = CHR ''-'' then (True, r)
          else if c = CHR ''+'' then (False, r)
          else (False, s))"

text \<open>
  An optional \<^verbatim>\<open>ExponentPart\<close>: the exponent and what follows it. A lone \<^verbatim>\<open>e\<close>
  (or \<^verbatim>\<open>e+\<close>) is not part of the literal, so nothing is consumed then.
\<close>

definition scan_exponent :: "string \<Rightarrow> int \<times> string" where
  "scan_exponent s =
     (case s of
        [] \<Rightarrow> (0, [])
      | c # r \<Rightarrow>
          if c = CHR ''e'' \<or> c = CHR ''E'' then
            (let (neg, r') = scan_sign r;
                 ds = takeWhile is_digit r'
             in if ds = [] then (0, s)
                else (if neg then - int (digits_val ds) else int (digits_val ds),
                      dropWhile is_digit r'))
          else (0, s))"

text \<open>
  The longest prefix of \<open>s\<close> that is a \<^verbatim>\<open>StrDecimalLiteral\<close>, as a number, and the
  rest of \<open>s\<close>; \<open>None\<close> when no prefix is one.
\<close>

definition scan_decimal :: "string \<Rightarrow> (jsnum \<times> string) option" where
  "scan_decimal s =
     (let (neg, u) = scan_sign s in
      if take 8 u = ''Infinity'' then
        Some (if neg then NegInfinity else PosInfinity, drop 8 u)
      else
        (let ip = takeWhile is_digit u;
             r1 = dropWhile is_digit u;
             (fp, r2) =
               (case r1 of
                  [] \<Rightarrow> ([], r1)
                | c # r \<Rightarrow>
                    if c = CHR ''.'' then (takeWhile is_digit r, dropWhile is_digit r)
                    else ([], r1))
         in if ip = [] \<and> fp = [] then None
            else
              (let (ex, r3) = scan_exponent r2
               in Some (mk_num neg (ip @ fp) (ex - int (length fp)), r3))))"

definition parseFloat :: "string \<Rightarrow> jsnum" where
  "parseFloat s =
     (case scan_decimal (dropWhile is_js_space s) of
        None \<Rightarrow> NaN
      | Some (n, r) \<Rightarrow> n)"

text \<open>
  \<^verbatim>\<open>StringToNumber\<close>, which \<^verbatim>\<open>==\<close> applies to a string compared with a number:
  the whole text, trimmed, must be a numeric literal; the empty text is 0; hexadecimal,
  octal and binary integer literals are accepted (unsigned).
\<close>

definition trim_js :: "string \<Rightarrow> string" where
  "trim_js s = rev (dropWhile is_js_space (rev (dropWhile is_js_space s)))"

definition radix_digit :: "char \<Rightarrow> nat option" where
  "radix_digit c =
     (if is_digit c then Some (digit_val c)
      else if CHR ''a'' \<le> c \<and> c \<le> CHR ''f'' then Some (of_char c - 87)
      else if CHR ''A'' \<le> c \<and> c \<le> CHR ''F'' then Some (of_char c - 55)
      else None)"

fun radix_val_acc :: "nat \<Rightarrow> nat \<Rightarrow> string \<Rightarrow> nat option" where
  "radix_val_acc b acc [] = Some acc"
| "radix_val_acc b acc (c # cs) =
     (case radix_digit c of
        None \<Rightarrow> None
      | Some d \<Rightarrow> if d < b then radix_val_acc b (acc * b + d) cs else None)"

definition non_decimal_literal :: "string \<Rightarrow> jsnum option" where
  "non_decimal_literal s =
     (case s of
        z # x # ds \<Rightarrow>
          if z = CHR ''0'' \<and> ds \<noteq> [] then
            (let b = (if x = CHR ''x'' \<or> x = CHR ''X'' then 16
                      else if x = CHR ''o'' \<or> x = CHR ''O'' then 8
                      else if x = CHR ''b'' \<or> x = CHR ''B'' then 2
                      else (0::nat))
             in case radix_val_acc b 0 ds of
                  None \<Rightarrow> None
                | Some n \<Rightarrow> Some (norm_num (Fin (int n) 0)))
          else None
      | _ \<Rightarrow> None)"

definition StringToNumber :: "string \<Rightarrow> jsnum" where
  "StringToNumber s =
     (let t = trim_js s in
      if t = [] then Fin 0 0
      else
        (case non_decimal_literal t of
           Some n \<Rightarrow> n
         | None \<Rightarrow>
             (case scan_decimal t of
                None \<Rightarrow> NaN
              | Some (n, r) \<Rightarrow> if r = [] then n else NaN)))"

text \<open>\<^verbatim>\<open>x == y\<close> for a number \<open>x\<close> and a string \<open>y\<close>.\<close>

definition loose_eq_num_str :: "jsnum \<Rightarrow> string \<Rightarrow> bool" where
  "loose_eq_num_str x y = num_equal x (StringToNumber y)"

section \<open>\<^verbatim>\<open>JSON.stringify\<close>\<close>

abbreviation dquote :: char where
  "dquote \<equiv> CHR 0x22"

abbreviation bslash :: char where
  "bslash \<equiv> CHR 0x5C"

definition hex_char :: "nat \<Rightarrow> char" where
  "hex_char d = ''0123456789abcdef'' ! (d mod 16)"

definition quote_char :: "char \<Rightarrow> string" where
  "quote_char c =
     (if c = dquote then [bslash, dquote]
      else if c = bslash then [bslash, bslash]
      else if c = CHR 0x08 then [bslash, CHR ''b'']
      else if c = CHR 0x0C then [bslash, CHR ''f'']
      else if c = CHR 0x0A then [bslash, CHR ''n'']
      else if c = CHR 0x0D then [bslash, CHR ''r'']
      else if c = CHR 0x09 then [bslash, CHR ''t'']
      else if (of_char c :: nat) < 32 then
        [bslash, CHR ''u'', CHR ''0'', CHR ''0'',
         hex_char (of_char c div 16), hex_char (of_char c mod 16)]
      else [c])"

definition QuoteJSONString :: "string \<Rightarrow> string" where
  "QuoteJSONString s = dquote # concat (map quote_char s) @ [dquote]"

fun join_comma :: "string list \<Rightarrow> string" where
  "join_comma [] = []"
| "join_comma [x] = x"
| "join_comma (x # y # r) = x @ '','' @ join_comma (y # r)"

text \<open>
  \<^verbatim>\<open>SerializeJSONProperty\<close> without replacer and indentation. \<open>None\<close> is the result
  \<^verbatim>\<open>undefined\<close>: an array element without a serialization is written \<^verbatim>\<open>null\<close>, an
  object member without one is left out.
\<close>

fun JSON_str :: "jsval \<Rightarrow> string option"
  and JSON_str_elems :: "jsval list \<Rightarrow> string list"
  and JSON_str_members :: "(string \<times> jsval) list \<Rightarrow> string list"
where
  "JSON_str JUndefined = None"
| "JSON_str JNull = Some ''null''"
| "JSON_str (JBool b) = Some (if b then ''true'' else ''false'')"
| "JSON_str (JNum n) = Some (if is_finite n then num_to_string n else ''null'')"
| "JSON_str (JStr s) = Some (QuoteJSONString s)"
| "JSON_str (JArr xs) = Some (''['' @ join_comma (JSON_str_elems xs) @ '']'')"
| "JSON_str (JObj kvs) = Some (''{'' @ join_comma (JSON_str_members kvs) @ ''}'')"
| "JSON_str_elems [] = []"
| "JSON_str_elems (x # xs) =
     (case JSON_str x of None \<Rightarrow> ''null'' | Some t \<Rightarrow> t) # JSON_str_elems xs"
| "JSON_str_members [] = []"
| "JSON_str_members ((k, v) # kvs) =
     (case JSON_str v of
        None \<Rightarrow> JSON_str_members kvs
      | Some t \<Rightarrow> (QuoteJSONString k @ '':'' @ t) # JSON_str_members kvs)"

text \<open>\<^verbatim>\<open>JSON.stringify(v)\<close>: a string, or \<^verbatim>\<open>undefined\<close> for \<^verbatim>\<open>undefined\<close>.\<close>

definition JSON_stringify :: "jsval \<Rightarrow> jsval" where
  "JSON_stringify v = (case JSON_str v of None \<Rightarrow> JUndefined | Some s \<Rightarrow> JStr s)"

section \<open>\<^verbatim>\<open>JSON.parse\<close>\<close>

text \<open>JSON white space: TAB, LF, CR and space.\<close>

definition is_json_ws :: "char \<Rightarrow> bool" where
  "is_json_ws c = (c \<in> set [CHR 0x09, CHR 0x0A, CHR 0x0D, CHR 0x20])"

definition skip_ws :: "string \<Rightarrow> string" where
  "skip_ws s = dropWhile is_json_ws s"

text \<open>The four hexadecimal digits of a \<^verbatim>\<open>\uXXXX\<close> escape.\<close>

definition parse_hex4 :: "string \<Rightarrow> nat option" where
  "parse_hex4 s = (if length s < 4 then None else radix_val_acc 16 0 (take 4 s))"

definition unescape :: "char \<Rightarrow> char option" where
  "unescape c =
     (if c = dquote then Some dquote
      else if c = bslash then Some bslash
      else if c = CHR ''/'' then Some CHR ''/''
      else if c = CHR ''b'' then Some (CHR 0x08)
      else if c = CHR ''f'' then Some (CHR 0x0C)
      else if c = CHR ''n'' then Some (CHR 0x0A)
      else if c = CHR ''r'' then Some (CHR 0x0D)
      else if c = CHR ''t'' then Some (CHR 0x09)
      else None)"

text \<open>
  The characters of a string literal after its opening quote, up to the closing quote,
  and the text after it. An escape above \<^verbatim>\<open>00FF\<close> names a code unit the 8-bit
  string type does not have: the model answers \<open>OutsideModel\<close>, not a syntax error.
\<close>

definition cons_result :: "char \<Rightarrow> (string \<times> string) result \<Rightarrow> (string \<times> string) result" where
  "cons_result c res = (case res of Inl e \<Rightarrow> Inl e | Inr (str, r) \<Rightarrow> Inr (c # str, r))"

fun parse_string_body :: "string \<Rightarrow> (string \<times> string) result" where
  "parse_string_body [] = Inl SyntaxError"
| "parse_string_body (c # cs) =
     (if c = dquote then Inr ([], cs)
      else if c = bslash then
        (case cs of
           [] \<Rightarrow> Inl SyntaxError
         | d # ds \<Rightarrow>
             if d = CHR ''u'' then
               (case parse_hex4 ds of
                  None \<Rightarrow> Inl SyntaxError
                | Some n \<Rightarrow>
                    if n < 256 then cons_result (char_of n) (parse_string_body (drop 4 ds))
                    else Inl OutsideModel)
             else
               (case unescape d of
                  None \<Rightarrow> Inl SyntaxError
                | Some x \<Rightarrow> cons_result x (parse_string_body ds)))
      else if (of_char c :: nat) < 32 then Inl SyntaxError
      else cons_result c (parse_string_body cs))"

text \<open>
  A JSON number: an optional minus, an integer part without superfluous leading zero,
  an optional fraction with at least one digit, an optional exponent with at least one
  digit. A second digit after a leading 0 can be followed by nothing that continues a
  JSON text, so it is rejected here.
\<close>

definition json_minus :: "string \<Rightarrow> bool \<times> string" where
  "json_minus s =
     (case s of
        [] \<Rightarrow> (False, [])
      | c # r \<Rightarrow> if c = CHR ''-'' then (True, r) else (False, s))"

definition json_fraction :: "string \<Rightarrow> (string \<times> string) option" where
  "json_fraction s =
     (case s of
        [] \<Rightarrow> Some ([], s)
      | c # r \<Rightarrow>
          if c = CHR ''.'' then
            (if takeWhile is_digit r = [] then None
             else Some (takeWhile is_digit r, dropWhile is_digit r))
          else Some ([], s))"

definition json_exponent :: "string \<Rightarrow> (int \<times> string) option" where
  "json_exponent s =
     (case s of
        [] \<Rightarrow> Some (0, s)
      | c # r \<Rightarrow>
          if c = CHR ''e'' \<or> c = CHR ''E'' then
            (let (eneg, r') = scan_sign r;
                 ds = takeWhile is_digit r'
             in if ds = [] then None
                else Some (if eneg then - int (digits_val ds) else int (digits_val ds),
                           dropWhile is_digit r'))
          else Some (0, s))"

definition parse_number :: "string \<Rightarrow> (jsval \<times> string) result" where
  "parse_number s =
     (let (neg, u) = json_minus s;
          ip = takeWhile is_digit u;
          r1 = dropWhile is_digit u
      in if ip = [] then Inl SyntaxError
         else if 1 < length ip \<and> hd ip = CHR ''0'' then Inl SyntaxError
         else
           (case json_fraction r1 of
              None \<Rightarrow> Inl SyntaxError
            | Some (fp, r2) \<Rightarrow>
                (case json_exponent r2 of
                   None \<Rightarrow> Inl SyntaxError
                 | Some (ex, r3) \<Rightarrow>
                     Inr (JNum (mk_num neg (ip @ fp) (ex - int (length fp))), r3))))"

text \<open>
  Property order of an ordinary object: array-index keys (canonical decimal numerals
  below \<open>2^32 - 1\<close>) come first in ascending order, the other keys follow in the
  order of their creation. Setting an existing key keeps its place.
\<close>

definition array_index :: "string \<Rightarrow> nat option" where
  "array_index k =
     (if k \<noteq> [] \<and> list_all is_digit k \<and> (k = ''0'' \<or> hd k \<noteq> CHR ''0'')
         \<and> int (digits_val k) < 4294967295
      then Some (digits_val k) else None)"

fun insert_index :: "nat \<Rightarrow> string \<Rightarrow> jsval \<Rightarrow> (string \<times> jsval) list \<Rightarrow> (string \<times> jsval) list" where
  "insert_index i k v [] = [(k, v)]"
| "insert_index i k v ((k', v') # kvs) =
     (case array_index k' of
        None \<Rightarrow> (k, v) # (k', v') # kvs
      | Some j \<Rightarrow>
          if j < i then (k', v') # insert_index i k v kvs
          else (k, v) # (k', v') # kvs)"

fun replace_key :: "string \<Rightarrow> jsval \<Rightarrow> (string \<times> jsval) list \<Rightarrow> (string \<times> jsval) list" where
  "replace_key k v [] = []"
| "replace_key k v ((k', v') # kvs) =
     (if k' = k then (k, v) # kvs else (k', v') # replace_key k v kvs)"

definition obj_put :: "(string \<times> jsval) list \<Rightarrow> string \<times> jsval \<Rightarrow> (string \<times> jsval) list" where
  "obj_put kvs kv =
     (let (k, v) = kv in
      if k \<in> set (map fst kvs) then replace_key k v kvs
      else
        (case array_index k of
           None \<Rightarrow> kvs @ [(k, v)]
         | Some i \<Rightarrow> insert_index i k v kvs))"

definition build_object :: "(string \<times> jsval) list \<Rightarrow> jsval" where
  "build_object kvs = JObj (foldl obj_put [] kvs)"

text \<open>A value that is not an object or array: a string, a number or a literal name.\<close>

definition parse_scalar :: "string \<Rightarrow> (jsval \<times> string) result" where
  "parse_scalar s =
     (case s of
        [] \<Rightarrow> Inl SyntaxError
      | c # r \<Rightarrow>
          if c = dquote then
            (case parse_string_body r of
               Inl e \<Rightarrow> Inl e
             | Inr (str, r') \<Rightarrow> Inr (JStr str, r'))
          else if c = CHR ''-'' \<or> is_digit c then parse_number s
          else if take 4 s = ''null'' then Inr (JNull, drop 4 s)
          else if take 4 s = ''true'' then Inr (JBool True, drop 4 s)
          else if take 5 s = ''false'' then Inr (JBool False, drop 5 s)
          else Inl SyntaxError)"

text \<open>
  The key of an object member with its colon: the key, and the text at the first
  character of the member's value.
\<close>

definition parse_key :: "string \<Rightarrow> (string \<times> string) result" where
  "parse_key s =
     (case s of
        [] \<Rightarrow> Inl SyntaxError
      | q # r \<Rightarrow>
          if q \<noteq> dquote then Inl SyntaxError
          else
            (case parse_string_body r of
               Inl e \<Rightarrow> Inl e
             | Inr (k, r1) \<Rightarrow>
                 (case skip_ws r1 of
                    [] \<Rightarrow> Inl SyntaxError
                  | c # r2 \<Rightarrow>
                      if c \<noteq> CHR '':'' then Inl SyntaxError
                      else Inr (k, skip_ws r2))))"

text \<open>
  The recursive-descent parser. Each function takes the text at the first character of
  what it parses and returns the rest of the text: \<open>parse_elements\<close> reads the
  elements of a non-empty array up to its closing bracket, \<open>parse_members\<close> the
  members of a non-empty object up to its closing brace. The recursion is on a fuel
  counter; \<open>JSON_parse\<close> supplies \<open>2 * length text + 2\<close>, which is never
  used up (lemma \<open>JSON_parse_fuel\<close>).
\<close>

fun parse_value :: "nat \<Rightarrow> string \<Rightarrow> (jsval \<times> string) result"
  and parse_elements :: "nat \<Rightarrow> string \<Rightarrow> (jsval list \<times> string) result"
  and parse_members :: "nat \<Rightarrow> string \<Rightarrow> ((string \<times> jsval) list \<times> string) result"
where
  "parse_value 0 s = Inl OutOfFuel"
| "parse_value (Suc n) s =
     (case s of
        [] \<Rightarrow> Inl SyntaxError
      | c # r \<Rightarrow>
          if c = CHR ''{'' then
            (case skip_ws r of
               [] \<Rightarrow> Inl SyntaxError
             | c' # r' \<Rightarrow>
                 if c' = CHR ''}'' then Inr (JObj [], r')
                 else
                   (case parse_members n (c' # r') of
                      Inl e \<Rightarrow> Inl e
                    | Inr (kvs, r'') \<Rightarrow> Inr (build_object kvs, r'')))
          else if c = CHR ''['' then
            (case skip_ws r of
               [] \<Rightarrow> Inl SyntaxError
             | c' # r' \<Rightarrow>
                 if c' = CHR '']'' then Inr (JArr [], r')
                 else
                   (case parse_elements n (c' # r') of
                      Inl e \<Rightarrow> Inl e
                    | Inr (vs, r'') \<Rightarrow> Inr (JArr vs, r'')))
          else parse_scalar s)"
| "parse_elements 0 s = Inl OutOfFuel"
| "parse_elements (Suc n) s =
     (case parse_value n s of
        Inl e \<Rightarrow> Inl e
      | Inr (v, r) \<Rightarrow>
          (case skip_ws r of
             [] \<Rightarrow> Inl SyntaxError
           | c # r' \<Rightarrow>
               if c = CHR '','' then
                 (case parse_elements n (skip_ws r') of
                    Inl e \<Rightarrow> Inl e
                  | Inr (vs, r'') \<Rightarrow> Inr (v # vs, r''))
               else if c = CHR '']'' then Inr ([v], r')
               else Inl SyntaxError))"
| "parse_members 0 s = Inl OutOfFuel"
| "parse_members (Suc n) s =
     (case parse_key s of
        Inl e \<Rightarrow> Inl e
      | Inr (k, r2) \<Rightarrow>
          (case parse_value n r2 of
             Inl e \<Rightarrow> Inl e
           | Inr (v, r3) \<Rightarrow>
               (case skip_ws r3 of
                  [] \<Rightarrow> Inl SyntaxError
                | c # r4 \<Rightarrow>
                    if c = CHR '','' then
                      (case parse_members n (skip_ws r4) of
                         Inl e \<Rightarrow> Inl e
                       | Inr (kvs, r5) \<Rightarrow> Inr ((k, v) # kvs, r5))
                    else if c = CHR ''}'' then Inr ([(k, v)], r4)
                    else Inl SyntaxError)))"

text \<open>\<^verbatim>\<open>JSON.parse(text)\<close> without reviver: one value between optional white space.\<close>

definition JSON_parse :: "string \<Rightarrow> jsval result" where
  "JSON_parse s =
     (case parse_value (2 * length s + 2) (skip_ws s) of
        Inl e \<Rightarrow> Inl e
      | Inr (v, r) \<Rightarrow> if skip_ws r = [] then Inr v else Inl SyntaxError)"

section \<open>\<^verbatim>\<open>ValueParser\<close>\<close>


text \<open>
  \<^verbatim>\<open>ValueParser.isNumber\<close>: \<^verbatim>\<open>!isNaN(parsed) && parsed == value\<close> with
  \<^verbatim>\<open>parsed = parseFloat(value)\<close>. The comparison is the loose \<^verbatim>\<open>==\<close> of a number
  with a string, which converts the string to a number.
\<close>

definition isNumber :: "string \<Rightarrow> bool" where
  "isNumber s =
     (let parsed = parseFloat s in
      if \<not> isNaN parsed \<and> loose_eq_num_str parsed s then True else False)"

text \<open>
  \<^verbatim>\<open>value[i]\<close> on a string: the code unit at \<open>i\<close>, or \<^verbatim>\<open>undefined\<close> (here
  \<open>None\<close>) when \<open>i\<close> is not an index of the string, as \<open>-1\<close> is not.
\<close>

definition char_at :: "string \<Rightarrow> int \<Rightarrow> char option" where
  "char_at s i = (if 0 \<le> i \<and> i < int (length s) then Some (s ! nat i) else None)"

definition isJSON :: "string \<Rightarrow> bool" where
  "isJSON s =
     (let first = char_at s 0;
          last = char_at s (int (length s) - 1)
      in if first = Some CHR ''{'' \<and> last = Some CHR ''}'' then True
         else if first = Some CHR ''['' \<and> last = Some CHR '']'' then True
         else False)"

text \<open>
  \<^verbatim>\<open>ValueParser.parseValue\<close>. The test \<^verbatim>\<open>typeof value === "string"\<close> is the case
  \<open>JStr\<close>; \<^verbatim>\<open>JSON.parse\<close> may throw, so the result is a \<open>result\<close>.
\<close>

definition parseValue :: "jsval \<Rightarrow> jsval result" where
  "parseValue v =
     (case v of
        JStr s \<Rightarrow>
          if isNumber s then Inr (JNum (parseFloat s))
          else if isJSON s then JSON_parse s
          else Inr v
      | _ \<Rightarrow> Inr v)"

definition validateJSON :: "jsval \<Rightarrow> unit result" where
  "validateJSON v =
     (if \<not> truthy v \<or> typeof v \<noteq> ''object''
      then Inl (Error ''AsyncStorage.mergeItem expects a JSON valid value'')
      else Inr ())"

section \<open>The underlying store\<close>

text \<open>
  \<^verbatim>\<open>AsyncStorage\<close> is an external library; the facade only calls it. It is modelled
  by its documented contract: a map from string keys to string values, read and written
  by the primitives below. Every invocation of a primitive is recorded in \<open>calls\<close>,
  so that "the call reached the store" is a statement about the state. The operations
  are asynchronous in the source; the model runs them one after the other, as awaiting
  each promise does.

  A primitive that is handed a value that is not a string rejects it (the library
  throws on \<^verbatim>\<open>null\<close> and \<^verbatim>\<open>undefined\<close>). How the store combines an existing text
  with a merged one is the store's business: it is the parameter \<open>mrg\<close>.
\<close>

datatype raw_call =
    RawGetItem string
  | RawSetItem string jsval
  | RawRemoveItem string
  | RawMergeItem string jsval
  | RawMultiGet "string list"
  | RawMultiSet "(string \<times> jsval) list"
  | RawMultiRemove "string list"

record storage =
  entries :: "string \<rightharpoonup> string"
  calls :: "raw_call list"

type_synonym 'a store_op = "storage \<Rightarrow> 'a result \<times> storage"

type_synonym merge_fn = "string option \<Rightarrow> string \<Rightarrow> string result"

definition record_call :: "raw_call \<Rightarrow> storage \<Rightarrow> storage" where
  "record_call c st = st\<lparr>calls := calls st @ [c]\<rparr>"

definition not_a_string :: error where
  "not_a_string = Error ''[AsyncStorage] The value is not a string''"

definition AsyncStorage_getItem :: "string \<Rightarrow> (string option) store_op" where
  "AsyncStorage_getItem key st = (Inr (entries st key), record_call (RawGetItem key) st)"

definition AsyncStorage_setItem :: "string \<Rightarrow> jsval \<Rightarrow> unit store_op" where
  "AsyncStorage_setItem key v st =
     (let st' = record_call (RawSetItem key v) st in
      case v of
        JStr raw \<Rightarrow> (Inr (), st'\<lparr>entries := (entries st')(key \<mapsto> raw)\<rparr>)
      | _ \<Rightarrow> (Inl not_a_string, st'))"

definition AsyncStorage_removeItem :: "string \<Rightarrow> unit store_op" where
  "AsyncStorage_removeItem key st =
     (let st' = record_call (RawRemoveItem key) st in
      (Inr (), st'\<lparr>entries := (entries st')(key := None)\<rparr>))"

definition AsyncStorage_mergeItem :: "merge_fn \<Rightarrow> string \<Rightarrow> jsval \<Rightarrow> unit store_op" where
  "AsyncStorage_mergeItem mrg key v st =
     (let st' = record_call (RawMergeItem key v) st in
      case v of
        JStr raw \<Rightarrow>
          (case mrg (entries st' key) raw of
             Inl e \<Rightarrow> (Inl e, st')
           | Inr merged \<Rightarrow> (Inr (), st'\<lparr>entries := (entries st')(key \<mapsto> merged)\<rparr>))
      | _ \<Rightarrow> (Inl not_a_string, st'))"

definition AsyncStorage_multiGet :: "string list \<Rightarrow> ((string \<times> string option) list) store_op" where
  "AsyncStorage_multiGet keys st =
     (Inr (map (\<lambda>key. (key, entries st key)) keys), record_call (RawMultiGet keys) st)"

fun is_string :: "jsval \<Rightarrow> bool" where
  "is_string (JStr s) = True"
| "is_string v = False"

fun write_pair :: "(string \<rightharpoonup> string) \<Rightarrow> string \<times> jsval \<Rightarrow> (string \<rightharpoonup> string)" where
  "write_pair m (key, JStr raw) = m(key \<mapsto> raw)"
| "write_pair m (key, v) = m"

definition AsyncStorage_multiSet :: "(string \<times> jsval) list \<Rightarrow> unit store_op" where
  "AsyncStorage_multiSet pairs st =
     (let st' = record_call (RawMultiSet pairs) st in
      if list_all (\<lambda>(key, v). is_string v) pairs
      then (Inr (), st'\<lparr>entries := foldl write_pair (entries st') pairs\<rparr>)
      else (Inl not_a_string, st'))"

definition AsyncStorage_multiRemove :: "string list \<Rightarrow> unit store_op" where
  "AsyncStorage_multiRemove keys st =
     (let st' = record_call (RawMultiRemove keys) st in
      (Inr (), st'\<lparr>entries := foldl (\<lambda>m key. m(key := None)) (entries st') keys\<rparr>))"

section \<open>\<^verbatim>\<open>TypeSafeStorage\<close>\<close>

text \<open>
  The facade. Its type parameters (the schema) exist at compile time only: at run time a
  key is a string and a value is any value. The optional callbacks are passed through to
  the store and are not modelled.
\<close>

text \<open>\<^verbatim>\<open>TypeSafeStorage.stringify\<close> (private), the same text as \<^verbatim>\<open>ValueParser.stringify\<close>.\<close>

definition stringify :: "jsval \<Rightarrow> jsval" where
  "stringify v = (if typeof v = ''string'' then v else JSON_stringify v)"

definition getItem :: "string \<Rightarrow> jsval store_op" where
  "getItem key st =
     (case AsyncStorage_getItem key st of
        (Inl e, st') \<Rightarrow> (Inl e, st')
      | (Inr raw, st') \<Rightarrow>
          (case raw of
             None \<Rightarrow> (Inr JNull, st')
           | Some txt \<Rightarrow> (JSON_parse txt, st')))"

definition setItem :: "string \<Rightarrow> jsval \<Rightarrow> unit store_op" where
  "setItem key v st = AsyncStorage_setItem key (stringify v) st"

definition removeItem :: "string \<Rightarrow> unit store_op" where
  "removeItem key st = AsyncStorage_removeItem key st"

definition mergeItem :: "merge_fn \<Rightarrow> string \<Rightarrow> jsval \<Rightarrow> unit store_op" where
  "mergeItem mrg key v st = AsyncStorage_mergeItem mrg key (JSON_stringify v) st"

text \<open>
  \<^verbatim>\<open>values.map(...)\<close> where the mapped function may throw: the first exception, in
  the order of the elements, is the outcome.
\<close>

fun map_result :: "('a \<Rightarrow> 'b result) \<Rightarrow> 'a list \<Rightarrow> ('b list) result" where
  "map_result f [] = Inr []"
| "map_result f (x # xs) =
     (case f x of
        Inl e \<Rightarrow> Inl e
      | Inr y \<Rightarrow> (case map_result f xs of Inl e \<Rightarrow> Inl e | Inr ys \<Rightarrow> Inr (y # ys)))"

definition parse_pair :: "string \<times> string option \<Rightarrow> (string \<times> jsval) result" where
  "parse_pair kv =
     (let (key, raw) = kv in
      case raw of
        None \<Rightarrow> Inr (key, JNull)
      | Some txt \<Rightarrow> (case JSON_parse txt of Inl e \<Rightarrow> Inl e | Inr v \<Rightarrow> Inr (key, v)))"

definition multiGet :: "string list \<Rightarrow> ((string \<times> jsval) list) store_op" where
  "multiGet keys st =
     (case AsyncStorage_multiGet keys st of
        (Inl e, st') \<Rightarrow> (Inl e, st')
      | (Inr vals, st') \<Rightarrow> (map_result parse_pair vals, st'))"

definition multiSet :: "(string \<times> jsval) list \<Rightarrow> unit store_op" where
  "multiSet keyValuePairs st =
     AsyncStorage_multiSet (map (\<lambda>(key, v). (key, stringify v)) keyValuePairs) st"

definition multiRemove :: "string list \<Rightarrow> unit store_op" where
  "multiRemove keys st = AsyncStorage_multiRemove keys st"

section \<open>Notions used in the properties\<close>

text \<open>
  The specification describes the number test of the compatibility parser in its own
  words: the text parses as a float, and the string form of that number is the text
  again. \<open>spec_isNumber\<close> follows those words, to be compared with \<open>isNumber\<close>,
  which follows the code.
\<close>

definition spec_isNumber :: "string \<Rightarrow> bool" where
  "spec_isNumber s = (\<not> isNaN (parseFloat s) \<and> num_to_string (parseFloat s) = s)"

text \<open>
  A value reads back when the text \<^verbatim>\<open>setItem\<close> stores for it is one that
  \<^verbatim>\<open>getItem\<close> parses to the same value.
\<close>

definition reads_back :: "jsval \<Rightarrow> bool" where
  "reads_back v = (case stringify v of JStr t \<Rightarrow> JSON_parse t = Inr v | _ \<Rightarrow> False)"

text \<open>
  A decimal literal from its parts: the sign, the digits before the point, the digits
  after it (no point when there are none) and the exponent (its sign and digits, when
  there is one). Both \<^verbatim>\<open>Number::toString\<close> and the two number readers are described by
  this layout in the proofs below.
\<close>

definition render_literal :: "bool \<Rightarrow> string \<Rightarrow> string \<Rightarrow> (bool \<times> string) option \<Rightarrow> string" where
  "render_literal neg ip fp ex =
     (if neg then ''-'' else []) @ ip @ (if fp = [] then [] else CHR ''.'' # fp)
     @ (case ex of
          None \<Rightarrow> []
        | Some (eneg, ds) \<Rightarrow> CHR ''e'' # (if eneg then CHR ''-'' else CHR ''+'') # ds)"

definition literal_exponent :: "(bool \<times> string) option \<Rightarrow> int" where
  "literal_exponent ex =
     (case ex of
        None \<Rightarrow> 0
      | Some (eneg, ds) \<Rightarrow> if eneg then - int (digits_val ds) else int (digits_val ds))"

definition literal_ok :: "string \<Rightarrow> string \<Rightarrow> (bool \<times> string) option \<Rightarrow> bool" where
  "literal_ok ip fp ex =
     (ip \<noteq> [] \<and> list_all is_digit ip \<and> (length ip = 1 \<or> hd ip \<noteq> CHR ''0'')
      \<and> list_all is_digit fp
      \<and> (case ex of None \<Rightarrow> True | Some (eneg, ds) \<Rightarrow> ds \<noteq> [] \<and> list_all is_digit ds))"

text \<open>
  The finite numbers in normal form: the numbers that \<^verbatim>\<open>JSON.parse\<close> and
  \<^verbatim>\<open>parseFloat\<close> produce, and the finite numbers a JSON text can stand for.
\<close>

fun canonical_num :: "jsnum \<Rightarrow> bool" where
  "canonical_num (Fin m e) = ((m = 0 \<and> e = 0) \<or> m mod 10 \<noteq> 0)"
| "canonical_num n = False"

text \<open>
  The JSON-representable values: no \<^verbatim>\<open>undefined\<close>, only finite numbers (in normal
  form), and objects whose members are listed in property order, which is to say that
  creating the members one after the other gives the list itself.
\<close>

fun representable :: "jsval \<Rightarrow> bool"
  and representable_elems :: "jsval list \<Rightarrow> bool"
  and representable_members :: "(string \<times> jsval) list \<Rightarrow> bool"
where
  "representable JUndefined = False"
| "representable JNull = True"
| "representable (JBool b) = True"
| "representable (JNum n) = canonical_num n"
| "representable (JStr s) = True"
| "representable (JArr xs) = representable_elems xs"
| "representable (JObj kvs) = (representable_members kvs \<and> foldl obj_put [] kvs = kvs)"
| "representable_elems [] = True"
| "representable_elems (x # xs) = (representable x \<and> representable_elems xs)"
| "representable_members [] = True"
| "representable_members ((k, v) # kvs) = (representable v \<and> representable_members kvs)"

text \<open>The first character of the JSON text of a value.\<close>

definition value_start :: "char \<Rightarrow> bool" where
  "value_start c = (is_digit c \<or> c \<in> set (''ntf-[{'' @ [dquote]))"

text \<open>What can follow a value inside a JSON text: nothing, a comma or a closing bracket.\<close>

definition delimited :: "string \<Rightarrow> bool" where
  "delimited r = (r = [] \<or> hd r = CHR '','' \<or> hd r = CHR '']'' \<or> hd r = CHR ''}'')"

text \<open>The empty store, before any call.\<close>

definition empty_storage :: storage where
  "empty_storage = \<lparr>entries = Map.empty, calls = []\<rparr>"

section \<open>The parser never runs out of fuel\<close>

lemma cons_result_Inr: "cons_result c res = Inr (t, r) \<longleftrightarrow> (\<exists>t'. res = Inr (t', r) \<and> t = c # t')"
  by (cases res) (auto simp: cons_result_def)

lemma cons_result_Inl: "cons_result c res = Inl e \<longleftrightarrow> res = Inl e"
  by (cases res) (auto simp: cons_result_def)

lemma parse_string_body_cases:
  "parse_string_body (c # cs) = Inr ([], cs)
   \<or> parse_string_body (c # cs) = Inl SyntaxError
   \<or> parse_string_body (c # cs) = Inl OutsideModel
   \<or> (\<exists>x cs'. length cs' \<le> length cs
         \<and> parse_string_body (c # cs) = cons_result x (parse_string_body cs'))"
proof -
  consider (q) "c = dquote"
    | (e) "c = bslash" "cs = []"
    | (u) ds where "c = bslash" "cs = CHR ''u'' # ds"
    | (o) d ds where "c = bslash" "cs = d # ds" "d \<noteq> CHR ''u''"
    | (p) "c \<noteq> dquote" "c \<noteq> bslash"
    by (cases cs) auto
  then show ?thesis
  proof cases
    case q
    then show ?thesis by simp
  next
    case e
    then show ?thesis by simp
  next
    case u
    show ?thesis
    proof (cases "parse_hex4 ds")
      case None
      with u show ?thesis by simp
    next
      case (Some n)
      show ?thesis
      proof (cases "n < 256")
        case True
        have "length (drop 4 ds) \<le> length cs" using u by simp
        moreover have "parse_string_body (c # cs)
            = cons_result (char_of n) (parse_string_body (drop 4 ds))"
          using u Some True by simp
        ultimately show ?thesis by blast
      next
        case False
        with u Some show ?thesis by simp
      qed
    qed
  next
    case o
    show ?thesis
    proof (cases "unescape d")
      case None
      with o show ?thesis by simp
    next
      case (Some x)
      have "length ds \<le> length cs" using o by simp
      moreover have "parse_string_body (c # cs) = cons_result x (parse_string_body ds)"
        using o Some by simp
      ultimately show ?thesis by blast
    qed
  next
    case p
    show ?thesis
    proof (cases "(of_char c :: nat) < 32")
      case True
      with p show ?thesis by simp
    next
      case False
      have "length cs \<le> length cs" by simp
      moreover have "parse_string_body (c # cs) = cons_result c (parse_string_body cs)"
        using p False by simp
      ultimately show ?thesis by blast
    qed
  qed
qed

lemma parse_string_body_fuel: "parse_string_body s \<noteq> Inl OutOfFuel"
proof (induction s rule: length_induct)
  case (1 s)
  show ?case
  proof (cases s)
    case Nil
    then show ?thesis by simp
  next
    case (Cons c cs)
    from parse_string_body_cases [of c cs] show ?thesis
    proof (elim disjE exE conjE)
      fix x cs'
      assume l: "length cs' \<le> length cs"
        and p: "parse_string_body (c # cs) = cons_result x (parse_string_body cs')"
      from l Cons have "length cs' < length s" by simp
      with 1 have "parse_string_body cs' \<noteq> Inl OutOfFuel" by blast
      with p Cons show ?thesis by (simp add: cons_result_Inl)
    qed (simp_all add: Cons)
  qed
qed

lemma parse_string_body_length:
  "parse_string_body s = Inr (t, r) \<Longrightarrow> length r < length s"
proof (induction s arbitrary: t r rule: length_induct)
  case (1 s)
  show ?case
  proof (cases s)
    case Nil
    with 1 show ?thesis by simp
  next
    case (Cons c cs)
    from parse_string_body_cases [of c cs] show ?thesis
    proof (elim disjE exE conjE)
      fix x cs'
      assume l: "length cs' \<le> length cs"
        and p: "parse_string_body (c # cs) = cons_result x (parse_string_body cs')"
      from p 1(2) Cons obtain t' where t': "parse_string_body cs' = Inr (t', r)"
        by (auto simp: cons_result_Inr)
      from l Cons have "length cs' < length s" by simp
      with 1(1) t' have "length r < length cs'" by blast
      with l Cons show ?thesis by simp
    next
      assume "parse_string_body (c # cs) = Inr ([], cs)"
      with 1(2) Cons show ?thesis by simp
    next
      assume "parse_string_body (c # cs) = Inl SyntaxError"
      with 1(2) Cons show ?thesis by simp
    next
      assume "parse_string_body (c # cs) = Inl OutsideModel"
      with 1(2) Cons show ?thesis by simp
    qed
  qed
qed


declare parse_value.simps [simp del] parse_elements.simps [simp del] parse_members.simps [simp del]

lemma length_skip_ws: "length (skip_ws s) \<le> length s"
  by (simp add: skip_ws_def length_dropWhile_le)

lemma skip_ws_Cons_length: "skip_ws r = c # r' \<Longrightarrow> length r' < length r"
  using length_skip_ws [of r] by simp

lemma scan_sign_length: "scan_sign s = (b, r) \<Longrightarrow> length r \<le> length s"
  by (auto simp: scan_sign_def split: list.splits if_splits)

lemma parse_number_fuel: "parse_number s \<noteq> Inl OutOfFuel"
  by (simp add: parse_number_def Let_def split: prod.split option.split)

lemma takeWhile_nonempty_length:
  "takeWhile P u \<noteq> [] \<Longrightarrow> length (dropWhile P u) < length u"
  by (cases u) (auto simp: less_Suc_eq_le length_dropWhile_le split: if_splits)

lemma json_minus_length: "json_minus s = (b, r) \<Longrightarrow> length r \<le> length s"
  by (auto simp: json_minus_def split: list.splits if_splits)

lemma json_fraction_length: "json_fraction s = Some (fp, r) \<Longrightarrow> length r \<le> length s"
  by (cases s) (auto simp: json_fraction_def split: if_splits intro: le_SucI length_dropWhile_le)

lemma json_exponent_length: "json_exponent s = Some (ex, r) \<Longrightarrow> length r \<le> length s"
proof (cases s)
  case Nil
  assume "json_exponent s = Some (ex, r)"
  with Nil show ?thesis by (simp add: json_exponent_def)
next
  case (Cons c cs)
  assume a: "json_exponent s = Some (ex, r)"
  obtain b r' where sg: "scan_sign cs = (b, r')" by fastforce
  have "length (dropWhile is_digit r') \<le> length r'" by (rule length_dropWhile_le)
  with scan_sign_length [OF sg] have "length (dropWhile is_digit r') \<le> length s"
    using Cons by simp
  with a Cons sg show ?thesis
    by (auto simp: json_exponent_def Let_def split: if_splits)
qed

lemma parse_number_length:
  assumes "parse_number s = Inr (v, r)"
  shows "length r < length s"
proof -
  obtain neg u where nu: "json_minus s = (neg, u)" by fastforce
  from assms nu obtain fp r2 ex where ip: "takeWhile is_digit u \<noteq> []"
    and fr: "json_fraction (dropWhile is_digit u) = Some (fp, r2)"
    and ex: "json_exponent r2 = Some (ex, r)"
    by (auto simp: parse_number_def Let_def split: if_splits option.splits)
  from ip have "length (dropWhile is_digit u) < length u" by (rule takeWhile_nonempty_length)
  with json_minus_length [OF nu] json_fraction_length [OF fr] json_exponent_length [OF ex]
  show ?thesis by simp
qed

lemma parse_scalar_fuel: "parse_scalar s \<noteq> Inl OutOfFuel"
  using parse_string_body_fuel parse_number_fuel
  by (auto simp: parse_scalar_def split: list.splits sum.splits)

lemma parse_scalar_length: "parse_scalar s = Inr (v, r) \<Longrightarrow> length r < length s"
  by (auto simp: parse_scalar_def split: list.splits sum.splits if_splits
      dest: parse_string_body_length parse_number_length)

lemma parse_key_fuel: "parse_key s \<noteq> Inl OutOfFuel"
  using parse_string_body_fuel
  by (auto simp: parse_key_def split: list.splits sum.splits)

lemma parse_key_length: "parse_key s = Inr (k, r) \<Longrightarrow> length r < length s"
proof -
  assume a: "parse_key s = Inr (k, r)"
  then obtain q s' r1 c r2 where s: "s = q # s'" and b: "parse_string_body s' = Inr (k, r1)"
    and w: "skip_ws r1 = c # r2" and r: "r = skip_ws r2"
    by (auto simp: parse_key_def split: list.splits sum.splits if_splits)
  from b have "length r1 < length s'" by (rule parse_string_body_length)
  moreover from w have "length r2 < length r1" by (rule skip_ws_Cons_length)
  moreover have "length r \<le> length r2" using r length_skip_ws by simp
  ultimately show ?thesis using s by simp
qed


lemma parse_fuel_aux:
  "(\<forall>s. 2 * length s < n \<longrightarrow>
        parse_value n s \<noteq> Inl OutOfFuel
        \<and> (\<forall>v r. parse_value n s = Inr (v, r) \<longrightarrow> length r < length s))
   \<and> (\<forall>s. 2 * length s + 1 < n \<longrightarrow>
        parse_elements n s \<noteq> Inl OutOfFuel
        \<and> (\<forall>vs r. parse_elements n s = Inr (vs, r) \<longrightarrow> length r < length s))
   \<and> (\<forall>s. 2 * length s + 1 < n \<longrightarrow>
        parse_members n s \<noteq> Inl OutOfFuel
        \<and> (\<forall>kvs r. parse_members n s = Inr (kvs, r) \<longrightarrow> length r < length s))"
proof (induction n)
  case 0
  show ?case by simp
next
  case (Suc n)
  then have IHv: "\<And>s. 2 * length s < n \<Longrightarrow> parse_value n s \<noteq> Inl OutOfFuel"
    and IHvl: "\<And>s v r. 2 * length s < n \<Longrightarrow> parse_value n s = Inr (v, r) \<Longrightarrow> length r < length s"
    and IHe: "\<And>s. 2 * length s + 1 < n \<Longrightarrow> parse_elements n s \<noteq> Inl OutOfFuel"
    and IHel: "\<And>s vs r. 2 * length s + 1 < n \<Longrightarrow> parse_elements n s = Inr (vs, r) \<Longrightarrow> length r < length s"
    and IHm: "\<And>s. 2 * length s + 1 < n \<Longrightarrow> parse_members n s \<noteq> Inl OutOfFuel"
    and IHml: "\<And>s kvs r. 2 * length s + 1 < n \<Longrightarrow> parse_members n s = Inr (kvs, r) \<Longrightarrow> length r < length s"
    by blast+
  have V: "parse_value (Suc n) s \<noteq> Inl OutOfFuel
      \<and> (\<forall>v r. parse_value (Suc n) s = Inr (v, r) \<longrightarrow> length r < length s)"
    if b: "2 * length s < Suc n" for s
  proof (cases s)
    case Nil
    then show ?thesis by (simp add: parse_value.simps)
  next
    case (Cons c r)
    define w where "w = skip_ws r"
    have wl: "length w \<le> length r" unfolding w_def by (rule length_skip_ws)
    with b Cons have wb: "2 * length w + 1 < n" by simp
    note m = IHm [OF wb] IHml [OF wb] and e = IHe [OF wb] IHel [OF wb]
    have sc: "parse_scalar s \<noteq> Inl OutOfFuel" by (rule parse_scalar_fuel)
    have scl: "\<And>v r. parse_scalar s = Inr (v, r) \<Longrightarrow> length r < length s"
      by (rule parse_scalar_length)
    have eq: "parse_value (Suc n) s =
       (if c = CHR ''{'' then
            (case w of
               [] \<Rightarrow> Inl SyntaxError
             | c' # r' \<Rightarrow>
                 if c' = CHR ''}'' then Inr (JObj [], r')
                 else
                   (case parse_members n w of
                      Inl e \<Rightarrow> Inl e
                    | Inr (kvs, r'') \<Rightarrow> Inr (build_object kvs, r'')))
          else if c = CHR ''['' then
            (case w of
               [] \<Rightarrow> Inl SyntaxError
             | c' # r' \<Rightarrow>
                 if c' = CHR '']'' then Inr (JArr [], r')
                 else
                   (case parse_elements n w of
                      Inl e \<Rightarrow> Inl e
                    | Inr (vs, r'') \<Rightarrow> Inr (JArr vs, r'')))
          else parse_scalar s)"
      unfolding w_def Cons by (simp add: parse_value.simps split: list.split)
    show ?thesis
      unfolding eq using m e sc scl wl Cons
      by (auto split: list.splits sum.splits)
  qed
  have E: "parse_elements (Suc n) s \<noteq> Inl OutOfFuel
      \<and> (\<forall>vs r. parse_elements (Suc n) s = Inr (vs, r) \<longrightarrow> length r < length s)"
    if b: "2 * length s + 1 < Suc n" for s
  proof -
    from b have vb: "2 * length s < n" by simp
    note v = IHv [OF vb] IHvl [OF vb]
    show ?thesis
    proof (cases "parse_value n s")
      case (Inl e)
      with v show ?thesis by (simp add: parse_elements.simps)
    next
      case (Inr p)
      obtain x r where p: "p = (x, r)" by (cases p)
      with Inr v have rl: "length r < length s" by simp
      show ?thesis
      proof (cases "skip_ws r")
        case Nil
        with Inr p show ?thesis by (simp add: parse_elements.simps)
      next
        case (Cons c r')
        then have r': "length r' < length r" by (rule skip_ws_Cons_length)
        define w where "w = skip_ws r'"
        have "length w \<le> length r'" unfolding w_def by (rule length_skip_ws)
        with r' rl b have wb: "2 * length w + 1 < n" and wl: "length w < length s" by simp_all
        note e = IHe [OF wb] IHel [OF wb]
        show ?thesis
          using Inr p Cons e r' rl wl unfolding w_def
          by (auto simp: parse_elements.simps split: sum.splits)
      qed
    qed
  qed
  have M: "parse_members (Suc n) s \<noteq> Inl OutOfFuel
      \<and> (\<forall>kvs r. parse_members (Suc n) s = Inr (kvs, r) \<longrightarrow> length r < length s)"
    if b: "2 * length s + 1 < Suc n" for s
  proof (cases "parse_key s")
    case (Inl e)
    with parse_key_fuel [of s] show ?thesis by (simp add: parse_members.simps)
  next
    case (Inr p)
    obtain k r2 where p: "p = (k, r2)" by (cases p)
    with Inr have r2: "length r2 < length s" by (simp add: parse_key_length)
    with b have vb: "2 * length r2 < n" by simp
    note v = IHv [OF vb] IHvl [OF vb]
    show ?thesis
    proof (cases "parse_value n r2")
      case (Inl e)
      with v Inr p show ?thesis by (simp add: parse_members.simps)
    next
      case vr: (Inr q)
      obtain x r3 where q: "q = (x, r3)" by (cases q)
      with vr v have r3: "length r3 < length r2" by simp
      show ?thesis
      proof (cases "skip_ws r3")
        case Nil
        with Inr p vr q show ?thesis by (simp add: parse_members.simps)
      next
        case (Cons c r4)
        then have r4: "length r4 < length r3" by (rule skip_ws_Cons_length)
        define w where "w = skip_ws r4"
        have "length w \<le> length r4" unfolding w_def by (rule length_skip_ws)
        with r4 r3 r2 b have wb: "2 * length w + 1 < n" and wl: "length w < length s" by simp_all
        note m = IHm [OF wb] IHml [OF wb]
        show ?thesis
          using Inr p vr q Cons m r4 r3 r2 wl unfolding w_def
          by (auto simp: parse_members.simps split: sum.splits)
      qed
    qed
  qed
  from V E M show ?case by blast
qed

lemma JSON_parse_fuel: "JSON_parse s \<noteq> Inl OutOfFuel"
proof -
  have "2 * length (skip_ws s) < 2 * length s + 2"
    using length_skip_ws [of s] by simp
  with parse_fuel_aux [of "2 * length s + 2"]
  have "parse_value (2 * length s + 2) (skip_ws s) \<noteq> Inl OutOfFuel" by blast
  then show ?thesis
    by (auto simp: JSON_parse_def split: sum.splits)
qed

section \<open>What a parse can return\<close>

lemma parse_number_shape: "parse_number s = Inr (v, r) \<Longrightarrow> \<exists>n. v = JNum n"
  by (auto simp: parse_number_def Let_def split: prod.splits if_splits option.splits)

lemma parse_scalar_shape:
  "parse_scalar s = Inr (v, r) \<Longrightarrow>
     (\<exists>n. v = JNum n) \<or> (\<exists>t. v = JStr t) \<or> (\<exists>b. v = JBool b)
     \<or> (v = JNull \<and> take 4 s = ''null'' \<and> r = drop 4 s)"
  by (auto simp: parse_scalar_def split: list.splits if_splits sum.splits
      dest: parse_number_shape)

lemma parse_value_brace:
  "parse_value n (CHR ''{'' # r) = Inr (v, r') \<Longrightarrow> \<exists>kvs. v = JObj kvs"
  by (cases n)
     (auto simp: parse_value.simps build_object_def split: list.splits if_splits sum.splits)

lemma parse_value_bracket:
  "parse_value n (CHR ''['' # r) = Inr (v, r') \<Longrightarrow> \<exists>vs. v = JArr vs"
  by (cases n) (auto simp: parse_value.simps split: list.splits if_splits sum.splits)

lemma parse_value_null:
  "parse_value n s = Inr (JNull, r) \<Longrightarrow> take 4 s = ''null'' \<and> r = drop 4 s"
  by (cases n)
     (auto simp: parse_value.simps build_object_def split: list.splits if_splits sum.splits
      dest: parse_scalar_shape)

lemma parse_value_null_intro:
  "parse_value (Suc n) (''null'' @ r) = Inr (JNull, r)"
  by (simp add: parse_value.simps parse_scalar_def is_digit_def)

lemma JSON_parse_null_iff:
  "JSON_parse t = Inr JNull \<longleftrightarrow> (\<exists>r. skip_ws t = ''null'' @ r \<and> skip_ws r = [])"
proof
  assume "JSON_parse t = Inr JNull"
  then obtain r where p: "parse_value (2 * length t + 2) (skip_ws t) = Inr (JNull, r)"
    and r: "skip_ws r = []"
    by (auto simp: JSON_parse_def split: sum.splits if_splits)
  from parse_value_null [OF p] have "take 4 (skip_ws t) = ''null''" "r = drop 4 (skip_ws t)"
    by auto
  then have "skip_ws t = ''null'' @ r"
    by (metis append_take_drop_id)
  with r show "\<exists>r. skip_ws t = ''null'' @ r \<and> skip_ws r = []" by blast
next
  assume "\<exists>r. skip_ws t = ''null'' @ r \<and> skip_ws r = []"
  then obtain r where t: "skip_ws t = ''null'' @ r" and r: "skip_ws r = []" by blast
  have "parse_value (Suc (2 * length t + 1)) (''null'' @ r) = Inr (JNull, r)"
    by (rule parse_value_null_intro)
  then show "JSON_parse t = Inr JNull"
    using t r by (simp add: JSON_parse_def)
qed

lemma skip_ws_brace:
  "skip_ws (CHR ''{'' # r) = CHR ''{'' # r" "skip_ws (CHR ''['' # r) = CHR ''['' # r"
  by (simp_all add: skip_ws_def is_json_ws_def)

lemma JSON_parse_brace:
  "JSON_parse (CHR ''{'' # r) = Inr v \<Longrightarrow> \<exists>kvs. v = JObj kvs"
  by (auto simp: JSON_parse_def skip_ws_brace split: sum.splits if_splits
      dest: parse_value_brace)

lemma JSON_parse_bracket:
  "JSON_parse (CHR ''['' # r) = Inr v \<Longrightarrow> \<exists>vs. v = JArr vs"
  by (auto simp: JSON_parse_def skip_ws_brace split: sum.splits if_splits
      dest: parse_value_bracket)

lemma parseFloat_brace:
  "parseFloat (CHR ''{'' # r) = NaN" "parseFloat (CHR ''['' # r) = NaN"
  by (simp_all add: parseFloat_def is_js_space_def scan_decimal_def scan_sign_def is_digit_def)

section \<open>Facts about \<^verbatim>\<open>ValueParser\<close>\<close>

lemma isJSON_iff:
  "isJSON s \<longleftrightarrow>
     s \<noteq> [] \<and> ((hd s = CHR ''{'' \<and> last s = CHR ''}'') \<or> (hd s = CHR ''['' \<and> last s = CHR '']''))"
proof (cases s)
  case Nil
  then show ?thesis by (simp add: isJSON_def char_at_def)
next
  case (Cons c cs)
  have "int (length s) - 1 = int (length s - 1)" using Cons by simp
  then have l: "char_at s (int (length s) - 1) = Some (last s)"
    using Cons by (simp add: char_at_def last_conv_nth)
  have f: "char_at s 0 = Some (hd s)"
    using Cons by (simp add: char_at_def)
  show ?thesis unfolding isJSON_def l f Let_def using Cons by auto
qed

lemma isJSON_not_isNumber: "isJSON s \<Longrightarrow> \<not> isNumber s"
  by (cases s) (auto simp: isJSON_iff isNumber_def parseFloat_brace simp del: last.simps)

lemma isJSON_parse_shape:
  "isJSON s \<Longrightarrow> JSON_parse s = Inr v \<Longrightarrow> (\<exists>kvs. v = JObj kvs) \<or> (\<exists>vs. v = JArr vs)"
  by (cases s)
     (auto simp: isJSON_iff simp del: last.simps dest: JSON_parse_brace JSON_parse_bracket)

lemma parseValue_nonstring: "typeof v \<noteq> ''string'' \<Longrightarrow> parseValue v = Inr v"
  by (cases v) (auto simp: parseValue_def)

lemma parseValue_result_string:
  assumes "parseValue v = Inr (JStr t)"
  shows "v = JStr t \<and> \<not> isNumber t \<and> \<not> isJSON t"
proof (cases v)
  case (JStr s)
  show ?thesis
  proof (cases "isNumber s")
    case True
    with assms JStr show ?thesis by (simp add: parseValue_def)
  next
    case False
    show ?thesis
    proof (cases "isJSON s")
      case True
      with assms JStr False have "JSON_parse s = Inr (JStr t)" by (simp add: parseValue_def)
      with isJSON_parse_shape [OF True] show ?thesis by blast
    next
      case nj: False
      with assms JStr False show ?thesis by (simp add: parseValue_def)
    qed
  qed
qed (use assms in \<open>auto simp: parseValue_def\<close>)

lemma parseValue_fixed: "parseValue v = Inr w \<Longrightarrow> parseValue w = Inr w"
proof (cases w)
  case (JStr t)
  assume "parseValue v = Inr w"
  with JStr parseValue_result_string [of v t] show ?thesis
    by (simp add: parseValue_def)
qed (auto simp: parseValue_def)

section \<open>Printing a number and reading it back\<close>

text \<open>
  Digits first: \<open>digits_of\<close> and \<open>digits_val\<close> are inverse, and the normal form of
  a decimal is stable. Then the layout of a literal: both number readers take a rendered
  literal apart into the parts it was rendered from. Last, \<^verbatim>\<open>Number::toString\<close>
  renders a number in normal form as a literal of that number.
\<close>

lemma lt10_cases: "(k::nat) < 10 \<Longrightarrow> k \<in> {0,1,2,3,4,5,6,7,8,9}"
  by auto

lemma is_digit_digit_char: "is_digit (digit_char d)"
proof -
  have "d mod 10 < 10" by simp
  then have "d mod 10 \<in> {0,1,2,3,4,5,6,7,8,9}" by (rule lt10_cases)
  then show ?thesis unfolding digit_char_def
    by (auto simp: is_digit_def)
qed

lemma digit_val_digit_char: "d < 10 \<Longrightarrow> digit_val (digit_char d) = d"
proof -
  assume "d < 10"
  then have "d \<in> {0,1,2,3,4,5,6,7,8,9}" by auto
  then show ?thesis unfolding digit_char_def
    by (auto simp: digit_val_def)
qed

lemma digit_char_zero_iff: "d < 10 \<Longrightarrow> digit_char d = CHR ''0'' \<longleftrightarrow> d = 0"
proof -
  assume "d < 10"
  then have "d \<in> {0,1,2,3,4,5,6,7,8,9}" by auto
  then show ?thesis unfolding digit_char_def
    by auto
qed

lemma digits_of_nonempty: "digits_of n \<noteq> []"
  by (subst digits_of.simps) simp

lemma digits_of_all_digits: "list_all is_digit (digits_of n)"
proof (induction n rule: digits_of.induct)
  case (1 n)
  show ?case
    by (subst digits_of.simps) (use 1 in \<open>simp add: is_digit_digit_char\<close>)
qed

lemma digits_val_acc_append:
  "digits_val_acc acc (a @ b) = digits_val_acc (digits_val_acc acc a) b"
  by (induction a arbitrary: acc) auto

lemma digits_val_snoc: "digits_val (a @ [c]) = 10 * digits_val a + digit_val c"
  by (simp add: digits_val_def digits_val_acc_append)

lemma digits_val_digits_of: "digits_val (digits_of n) = n"
proof (induction n rule: digits_of.induct)
  case (1 n)
  show ?case
  proof (cases "n < 10")
    case True
    then show ?thesis
      by (subst digits_of.simps) (simp add: digits_val_def digit_val_digit_char)
  next
    case False
    with 1 have "digits_val (digits_of (n div 10)) = n div 10" by simp
    with False show ?thesis
      by (subst digits_of.simps) (simp add: digits_val_snoc digit_val_digit_char)
  qed
qed

lemma hd_digits_of: "0 < n \<Longrightarrow> hd (digits_of n) \<noteq> CHR ''0''"
proof (induction n rule: digits_of.induct)
  case (1 n)
  show ?case
  proof (cases "n < 10")
    case True
    with 1(2) show ?thesis
      by (subst digits_of.simps) (simp add: digit_char_zero_iff)
  next
    case False
    then have "0 < n div 10" by simp
    with 1 False have "hd (digits_of (n div 10)) \<noteq> CHR ''0''" by simp
    with False show ?thesis
      by (subst digits_of.simps) (simp add: digits_of_nonempty)
  qed
qed

lemma last_digits_of: "last (digits_of n) = digit_char (n mod 10)"
  by (subst digits_of.simps) (simp add: digit_char_def)

lemma digits_val_acc_zeros: "digits_val_acc acc (replicate j CHR ''0'') = acc * 10 ^ j"
  by (induction j arbitrary: acc) (auto simp: digit_val_def)

lemma digits_val_acc_lin: "digits_val_acc acc ds = acc * 10 ^ length ds + digits_val_acc 0 ds"
proof (induction ds arbitrary: acc)
  case Nil
  show ?case by simp
next
  case (Cons c cs)
  have "digits_val_acc acc (c # cs) = digits_val_acc (10 * acc + digit_val c) cs" by simp
  also have "\<dots> = (10 * acc + digit_val c) * 10 ^ length cs + digits_val_acc 0 cs"
    by (rule Cons.IH)
  also have "digits_val_acc 0 (c # cs) = digit_val c * 10 ^ length cs + digits_val_acc 0 cs"
    using Cons.IH [of "digit_val c"] by simp
  ultimately show ?case by (simp add: algebra_simps)
qed

lemma digits_val_append: "digits_val (a @ b) = digits_val a * 10 ^ length b + digits_val b"
  unfolding digits_val_def digits_val_acc_append
  by (rule digits_val_acc_lin)

lemma digits_val_zeros_prefix: "digits_val (replicate j CHR ''0'' @ ds) = digits_val ds"
  by (simp add: digits_val_append) (simp add: digits_val_def digits_val_acc_zeros)

lemma digits_val_zeros_suffix: "digits_val (ds @ replicate j CHR ''0'') = digits_val ds * 10 ^ j"
  by (simp add: digits_val_append) (simp add: digits_val_def digits_val_acc_zeros)

lemma norm_dec_fixed: "m mod 10 \<noteq> 0 \<Longrightarrow> norm_dec m e = (m, e)"
  by (subst norm_dec.simps) auto

lemma norm_dec_zero: "norm_dec 0 e = (0, 0)"
  by (subst norm_dec.simps) simp

lemma norm_dec_times10: "m \<noteq> 0 \<Longrightarrow> norm_dec (m * 10) e = norm_dec m (e + 1)"
  by (subst norm_dec.simps) simp

lemma norm_dec_pow10: "m \<noteq> 0 \<Longrightarrow> norm_dec (m * 10 ^ j) e = norm_dec m (e + int j)"
proof (induction j arbitrary: e)
  case 0
  show ?case by simp
next
  case (Suc j)
  have "m * 10 ^ Suc j = (m * 10 ^ j) * 10" by simp
  moreover have "m * 10 ^ j \<noteq> 0" using Suc.prems by simp
  ultimately have "norm_dec (m * 10 ^ Suc j) e = norm_dec (m * 10 ^ j) (e + 1)"
    using norm_dec_times10 by metis
  also have "\<dots> = norm_dec m (e + 1 + int j)" using Suc by simp
  finally show ?case by (simp add: add.commute add.left_commute)
qed

lemma norm_dec_idem: "norm_dec m e = (m', e') \<Longrightarrow> norm_dec m' e' = (m', e')"
proof (induction m e rule: norm_dec.induct)
  case (1 m e)
  show ?case
  proof (cases "m = 0")
    case True
    with 1(2) show ?thesis by (simp add: norm_dec_zero)
  next
    case False
    show ?thesis
    proof (cases "m mod 10 = 0")
      case True
      with False 1(2) have "norm_dec (m div 10) (e + 1) = (m', e')"
        by (subst (asm) norm_dec.simps) simp
      with 1(1) False True show ?thesis by simp
    next
      case nz: False
      with 1(2) show ?thesis by (simp add: norm_dec_fixed)
    qed
  qed
qed


lemma takeWhile_digits:
  "list_all is_digit ds \<Longrightarrow> r = [] \<or> \<not> is_digit (hd r) \<Longrightarrow> takeWhile is_digit (ds @ r) = ds"
  by (cases r) (auto simp: list_all_iff takeWhile_append2)

lemma dropWhile_digits:
  "list_all is_digit ds \<Longrightarrow> r = [] \<or> \<not> is_digit (hd r) \<Longrightarrow> dropWhile is_digit (ds @ r) = r"
  by (cases r) (auto simp: list_all_iff dropWhile_append2)

lemma delimited_not_digit: "delimited r \<Longrightarrow> r = [] \<or> \<not> is_digit (hd r)"
  by (auto simp: delimited_def is_digit_def)

lemma json_exponent_render:
  assumes "case ex of None \<Rightarrow> True | Some (eneg, ds) \<Rightarrow> ds \<noteq> [] \<and> list_all is_digit ds"
    and "delimited rest"
  shows "json_exponent ((case ex of None \<Rightarrow> []
          | Some (eneg, ds) \<Rightarrow> CHR ''e'' # (if eneg then CHR ''-'' else CHR ''+'') # ds) @ rest)
      = Some (literal_exponent ex, rest)"
proof (cases ex)
  case None
  with assms(2) show ?thesis
    by (cases rest) (auto simp: json_exponent_def literal_exponent_def delimited_def)
next
  case (Some p)
  obtain eneg ds where p: "p = (eneg, ds)" by (cases p)
  with assms Some have ds: "ds \<noteq> []" "list_all is_digit ds" by auto
  note tw = takeWhile_digits [OF ds(2) delimited_not_digit [OF assms(2)]]
    dropWhile_digits [OF ds(2) delimited_not_digit [OF assms(2)]]
  show ?thesis using Some p ds tw
    by (simp add: json_exponent_def literal_exponent_def scan_sign_def Let_def)
qed

lemma scan_exponent_render:
  assumes "case ex of None \<Rightarrow> True | Some (eneg, ds) \<Rightarrow> ds \<noteq> [] \<and> list_all is_digit ds"
    and "delimited rest"
  shows "scan_exponent ((case ex of None \<Rightarrow> []
          | Some (eneg, ds) \<Rightarrow> CHR ''e'' # (if eneg then CHR ''-'' else CHR ''+'') # ds) @ rest)
      = (literal_exponent ex, rest)"
proof (cases ex)
  case None
  with assms(2) show ?thesis
    by (cases rest) (auto simp: scan_exponent_def literal_exponent_def delimited_def)
next
  case (Some p)
  obtain eneg ds where p: "p = (eneg, ds)" by (cases p)
  with assms Some have ds: "ds \<noteq> []" "list_all is_digit ds" by auto
  note tw = takeWhile_digits [OF ds(2) delimited_not_digit [OF assms(2)]]
    dropWhile_digits [OF ds(2) delimited_not_digit [OF assms(2)]]
  show ?thesis using Some p ds tw
    by (simp add: scan_exponent_def literal_exponent_def scan_sign_def Let_def)
qed


lemma exponent_text_head:
  assumes "delimited rest"
  shows "(case ex of None \<Rightarrow> []
          | Some (eneg, ds) \<Rightarrow> CHR ''e'' # (if eneg then CHR ''-'' else CHR ''+'') # ds) @ rest = []
     \<or> (\<not> is_digit (hd ((case ex of None \<Rightarrow> []
          | Some (eneg, ds) \<Rightarrow> CHR ''e'' # (if eneg then CHR ''-'' else CHR ''+'') # ds) @ rest))
        \<and> hd ((case ex of None \<Rightarrow> []
          | Some (eneg, ds) \<Rightarrow> CHR ''e'' # (if eneg then CHR ''-'' else CHR ''+'') # ds) @ rest)
            \<noteq> CHR ''.'')"
  using assms
  by (cases ex; cases rest) (auto simp: delimited_def is_digit_def)

lemma json_fraction_render:
  assumes "list_all is_digit fp" and "t = [] \<or> (\<not> is_digit (hd t) \<and> hd t \<noteq> CHR ''.'')"
  shows "json_fraction ((if fp = [] then [] else CHR ''.'' # fp) @ t) = Some (fp, t)"
proof (cases "fp = []")
  case True
  with assms(2) show ?thesis by (cases t) (auto simp: json_fraction_def)
next
  case False
  from assms have "takeWhile is_digit (fp @ t) = fp" "dropWhile is_digit (fp @ t) = t"
    by (auto intro: takeWhile_digits dropWhile_digits)
  with False show ?thesis by (simp add: json_fraction_def)
qed

lemma fraction_text_head:
  assumes "t = [] \<or> (\<not> is_digit (hd t) \<and> hd t \<noteq> CHR ''.'')"
  shows "(if fp = [] then [] else CHR ''.'' # fp) @ t = []
     \<or> \<not> is_digit (hd ((if fp = [] then [] else CHR ''.'' # fp) @ t))"
  using assms by (auto simp: is_digit_def)

lemma hd_digit_not_minus: "ip \<noteq> [] \<Longrightarrow> list_all is_digit ip \<Longrightarrow> hd ip \<noteq> CHR ''-''"
  by (cases ip) (auto simp: is_digit_def)

lemma parse_number_render:
  assumes ok: "literal_ok ip fp ex" and rest: "delimited rest"
  shows "parse_number (render_literal neg ip fp ex @ rest)
      = Inr (JNum (mk_num neg (ip @ fp) (literal_exponent ex - int (length fp))), rest)"
proof -
  let ?E = "(case ex of None \<Rightarrow> []
          | Some (eneg, ds) \<Rightarrow> CHR ''e'' # (if eneg then CHR ''-'' else CHR ''+'') # ds) @ rest"
  let ?F = "(if fp = [] then [] else CHR ''.'' # fp) @ ?E"
  from ok have ip: "ip \<noteq> []" "list_all is_digit ip" "length ip = 1 \<or> hd ip \<noteq> CHR ''0''"
    and fp: "list_all is_digit fp"
    and ex: "case ex of None \<Rightarrow> True | Some (eneg, ds) \<Rightarrow> ds \<noteq> [] \<and> list_all is_digit ds"
    by (auto simp: literal_ok_def)
  have eh: "?E = [] \<or> (\<not> is_digit (hd ?E) \<and> hd ?E \<noteq> CHR ''.'')"
    by (rule exponent_text_head [OF rest])
  have fh: "?F = [] \<or> \<not> is_digit (hd ?F)"
    by (rule fraction_text_head [OF eh])
  have r: "render_literal neg ip fp ex @ rest = (if neg then ''-'' else []) @ ip @ ?F"
    by (simp add: render_literal_def)
  have m: "json_minus ((if neg then ''-'' else []) @ ip @ ?F) = (neg, ip @ ?F)"
    using ip hd_digit_not_minus [OF ip(1,2)]
    by (cases ip) (auto simp: json_minus_def)
  have tw: "takeWhile is_digit (ip @ ?F) = ip" "dropWhile is_digit (ip @ ?F) = ?F"
    using takeWhile_digits [OF ip(2) fh] dropWhile_digits [OF ip(2) fh] by auto
  have f: "json_fraction ?F = Some (fp, ?E)"
    by (rule json_fraction_render [OF fp eh])
  have e: "json_exponent ?E = Some (literal_exponent ex, rest)"
    by (rule json_exponent_render [OF ex rest])
  have lz: "\<not> (1 < length ip \<and> hd ip = CHR ''0'')" using ip(3) by auto
  show ?thesis
    unfolding r parse_number_def m
    using ip(1) lz by (simp add: tw f e Let_def del: append_assoc)
qed


lemma hd_digit_not_sign: "ip \<noteq> [] \<Longrightarrow> list_all is_digit ip \<Longrightarrow> hd ip \<noteq> CHR ''-'' \<and> hd ip \<noteq> CHR ''+''"
  by (cases ip) (auto simp: is_digit_def)

lemma take8_digit: "ip \<noteq> [] \<Longrightarrow> list_all is_digit ip \<Longrightarrow> take 8 (ip @ t) \<noteq> ''Infinity''"
  by (cases ip) (auto simp: is_digit_def)

lemma scan_decimal_render:
  assumes ok: "literal_ok ip fp ex" and rest: "delimited rest"
  shows "scan_decimal (render_literal neg ip fp ex @ rest)
      = Some (mk_num neg (ip @ fp) (literal_exponent ex - int (length fp)), rest)"
proof -
  let ?E = "(case ex of None \<Rightarrow> []
          | Some (eneg, ds) \<Rightarrow> CHR ''e'' # (if eneg then CHR ''-'' else CHR ''+'') # ds) @ rest"
  let ?F = "(if fp = [] then [] else CHR ''.'' # fp) @ ?E"
  from ok have ip: "ip \<noteq> []" "list_all is_digit ip"
    and fp: "list_all is_digit fp"
    and ex: "case ex of None \<Rightarrow> True | Some (eneg, ds) \<Rightarrow> ds \<noteq> [] \<and> list_all is_digit ds"
    by (auto simp: literal_ok_def)
  have eh: "?E = [] \<or> (\<not> is_digit (hd ?E) \<and> hd ?E \<noteq> CHR ''.'')"
    by (rule exponent_text_head [OF rest])
  have fh: "?F = [] \<or> \<not> is_digit (hd ?F)"
    by (rule fraction_text_head [OF eh])
  have r: "render_literal neg ip fp ex @ rest = (if neg then ''-'' else []) @ ip @ ?F"
    by (simp add: render_literal_def)
  have m: "scan_sign ((if neg then ''-'' else []) @ ip @ ?F) = (neg, ip @ ?F)"
    using ip hd_digit_not_sign [OF ip(1,2)]
    by (cases ip) (auto simp: scan_sign_def)
  have inf: "take 8 (ip @ ?F) \<noteq> ''Infinity''"
    by (rule take8_digit [OF ip])
  have tw: "takeWhile is_digit (ip @ ?F) = ip" "dropWhile is_digit (ip @ ?F) = ?F"
    using takeWhile_digits [OF ip(2) fh] dropWhile_digits [OF ip(2) fh] by auto
  have f: "(case ?F of [] \<Rightarrow> ([], ?F)
            | c # r \<Rightarrow> if c = CHR ''.'' then (takeWhile is_digit r, dropWhile is_digit r)
                        else ([], ?F)) = (fp, ?E)"
  proof (cases "fp = []")
    case True
    with eh show ?thesis by (cases ?E) auto
  next
    case False
    from fp eh have "takeWhile is_digit (fp @ ?E) = fp" "dropWhile is_digit (fp @ ?E) = ?E"
      by (auto intro: takeWhile_digits dropWhile_digits)
    with False show ?thesis by simp
  qed
  have e: "scan_exponent ?E = (literal_exponent ex, rest)"
    by (rule scan_exponent_render [OF ex rest])
  show ?thesis
    unfolding r scan_decimal_def m
    using ip(1) inf by (simp add: tw f e Let_def del: append_assoc)
qed

lemma list_all_take_drop:
  "list_all P xs \<Longrightarrow> list_all P (take n xs) \<and> list_all P (drop n xs)"
  by (auto simp: list_all_iff dest: in_set_takeD in_set_dropD)

lemma mk_num_canonical:
  "m mod 10 \<noteq> 0 \<Longrightarrow> int (digits_val dd) = \<bar>m\<bar> \<Longrightarrow> mk_num (m < 0) dd e = Fin m e"
  by (auto simp: mk_num_def norm_dec_fixed Let_def)

lemma pos_to_string_render:
  fixes m e :: int
  assumes nz: "m mod 10 \<noteq> 0"
  defines "ds \<equiv> digits_of (nat \<bar>m\<bar>)"
  shows "\<exists>ip fp ex. pos_to_string ds (int (length ds) + e) = render_literal False ip fp ex
      \<and> literal_ok ip fp ex
      \<and> mk_num (m < 0) (ip @ fp) (literal_exponent ex - int (length fp)) = Fin m e"
proof -
  define k where "k = int (length ds)"
  define n where "n = k + e"
  have m0: "m \<noteq> 0" using nz by auto
  have dne: "ds \<noteq> []" and dall: "list_all is_digit ds"
    and dval: "int (digits_val ds) = \<bar>m\<bar>" and dhd: "hd ds \<noteq> CHR ''0''"
    using m0 by (simp_all add: ds_def digits_of_nonempty digits_of_all_digits
        digits_val_digits_of hd_digits_of)
  have kpos: "0 < k" using dne by (simp add: k_def)
  consider (int) "k \<le> n" "n \<le> 21" | (point) "\<not> (k \<le> n \<and> n \<le> 21)" "0 < n" "n \<le> 21"
    | (small) "- 6 < n" "n \<le> 0" | (expo) "\<not> (k \<le> n \<and> n \<le> 21)" "\<not> (0 < n \<and> n \<le> 21)" "\<not> (- 6 < n \<and> n \<le> 0)"
    by linarith
  then show ?thesis
  proof cases
    case int
    let ?ip = "ds @ replicate (nat (n - k)) CHR ''0''"
    have p: "pos_to_string ds (int (length ds) + e) = render_literal False ?ip [] None"
      using int by (simp add: pos_to_string_def render_literal_def k_def n_def Let_def)
    have z: "is_digit CHR ''0''" by (simp add: is_digit_def)
    have okl: "literal_ok ?ip [] None"
      using dne dall dhd z by (auto simp: literal_ok_def list_all_iff)
    have ee: "int (nat (n - k)) = e" using int by (simp add: n_def)
    have "norm_dec (m * 10 ^ nat (n - k)) 0 = norm_dec m (0 + int (nat (n - k)))"
      by (rule norm_dec_pow10 [OF m0])
    then have nd: "norm_dec (m * 10 ^ nat (n - k)) 0 = (m, e)"
      using nz ee by (simp add: norm_dec_fixed)
    have dv: "int (digits_val ?ip) = \<bar>m\<bar> * 10 ^ nat (n - k)"
      using dval by (simp add: digits_val_zeros_suffix)
    have "mk_num (m < 0) (?ip @ []) (literal_exponent None - int (length ([]::string))) = Fin m e"
      using dv nd by (cases "m < 0") (simp_all add: mk_num_def literal_exponent_def)
    with p okl show ?thesis by blast
  next
    case point
    then have nk: "n < k" by linarith
    let ?ip = "take (nat n) ds" and ?fp = "drop (nat n) ds"
    have fne: "?fp \<noteq> []" using nk point by (simp add: k_def)
    have p: "pos_to_string ds (int (length ds) + e) = render_literal False ?ip ?fp None"
      using point fne
      by (simp add: pos_to_string_def render_literal_def k_def n_def Let_def)
    have ipne: "?ip \<noteq> []" using point dne by simp
    have "hd ?ip = hd ds" using point by (simp add: hd_take)
    then have okl: "literal_ok ?ip ?fp None"
      using ipne dhd list_all_take_drop [OF dall, of "nat n"] by (simp add: literal_ok_def)
    have "int (length ?fp) = k - n" using nk point by (simp add: k_def)
    then have "literal_exponent None - int (length ?fp) = e"
      by (simp add: literal_exponent_def n_def)
    then have "mk_num (m < 0) (?ip @ ?fp) (literal_exponent None - int (length ?fp)) = Fin m e"
      using mk_num_canonical [OF nz] dval by simp
    with p okl show ?thesis by blast
  next
    case small
    let ?fp = "replicate (nat (- n)) CHR ''0'' @ ds"
    have nk: "\<not> (k \<le> n \<and> n \<le> 21)" "\<not> (0 < n \<and> n \<le> 21)" using small kpos by auto
    have p: "pos_to_string ds (int (length ds) + e) = render_literal False ''0'' ?fp None"
      using small nk dne
      by (simp add: pos_to_string_def render_literal_def k_def n_def Let_def)
    have z: "is_digit CHR ''0''" by (simp add: is_digit_def)
    have okl: "literal_ok ''0'' ?fp None"
      using dall z by (auto simp: literal_ok_def list_all_iff)
    have "int (length ?fp) = k - n" using small by (simp add: k_def)
    then have ee: "literal_exponent None - int (length ?fp) = e"
      by (simp add: literal_exponent_def n_def)
    have "''0'' @ ?fp = replicate (Suc (nat (- n))) CHR ''0'' @ ds" by simp
    then have "digits_val (''0'' @ ?fp) = digits_val ds"
      by (simp only: digits_val_zeros_prefix)
    then have "mk_num (m < 0) (''0'' @ ?fp) (literal_exponent None - int (length ?fp)) = Fin m e"
      using mk_num_canonical [OF nz] dval ee by simp
    with p okl show ?thesis by blast
  next
    case expo
    let ?ip = "take 1 ds" and ?fp = "drop 1 ds"
    let ?ex = "Some (n - 1 < 0, digits_of (nat \<bar>n - 1\<bar>))"
    have two: "length ds \<noteq> 1 \<Longrightarrow> \<not> length ds \<le> Suc 0"
      using dne by (cases ds) auto
    have p: "pos_to_string ds (int (length ds) + e) = render_literal False ?ip ?fp ?ex"
      using expo dne two
      by (cases "length ds = 1")
         (auto simp: pos_to_string_def render_literal_def k_def n_def Let_def)
    have "hd ?ip = hd ds" by (simp add: hd_take)
    moreover have "length ?ip = 1" using dne by (cases ds) auto
    ultimately have okl: "literal_ok ?ip ?fp ?ex"
      using dne list_all_take_drop [OF dall, of 1]
      by (simp add: literal_ok_def digits_of_nonempty digits_of_all_digits)
    have le: "literal_exponent ?ex = n - 1"
      by (simp add: literal_exponent_def digits_val_digits_of)
    have "int (length ?fp) = k - 1" using dne by (cases ds) (auto simp: k_def)
    with le have "literal_exponent ?ex - int (length ?fp) = e" by (simp add: n_def)
    then have "mk_num (m < 0) (?ip @ ?fp) (literal_exponent ?ex - int (length ?fp)) = Fin m e"
      using mk_num_canonical [OF nz] dval by simp
    with p okl show ?thesis by blast
  qed
qed


lemma render_literal_sign:
  "render_literal neg ip fp ex = (if neg then ''-'' else []) @ render_literal False ip fp ex"
  by (simp add: render_literal_def)

lemma num_to_string_render:
  assumes "canonical_num (Fin m e)"
  shows "\<exists>ip fp ex. num_to_string (Fin m e) = render_literal (m < 0) ip fp ex
      \<and> literal_ok ip fp ex
      \<and> mk_num (m < 0) (ip @ fp) (literal_exponent ex - int (length fp)) = Fin m e"
proof (cases "m = 0")
  case True
  with assms have e: "e = 0" by simp
  have "num_to_string (Fin 0 0) = render_literal ((0::int) < 0) ''0'' [] None"
    by (simp add: norm_dec_zero render_literal_def)
  moreover have "literal_ok ''0'' [] None" by (simp add: literal_ok_def is_digit_def)
  moreover have "mk_num ((0::int) < 0) (''0'' @ [])
      (literal_exponent None - int (length ([]::string))) = Fin 0 0"
    by (simp add: mk_num_def digits_val_def digit_val_def norm_dec_zero literal_exponent_def)
  ultimately show ?thesis unfolding True e by blast
next
  case False
  with assms have nz: "m mod 10 \<noteq> 0" by simp
  from pos_to_string_render [OF nz, of e] obtain ip fp ex where
    p: "pos_to_string (digits_of (nat \<bar>m\<bar>)) (int (length (digits_of (nat \<bar>m\<bar>))) + e)
        = render_literal False ip fp ex"
    and ok: "literal_ok ip fp ex"
    and v: "mk_num (m < 0) (ip @ fp) (literal_exponent ex - int (length fp)) = Fin m e"
    by blast
  have "num_to_string (Fin m e) = render_literal (m < 0) ip fp ex"
    using False nz p by (simp add: norm_dec_fixed Let_def render_literal_sign [of "m < 0"])
  with ok v show ?thesis by blast
qed

lemma parse_number_num_to_string:
  assumes "canonical_num n" and "delimited rest"
  shows "parse_number (num_to_string n @ rest) = Inr (JNum n, rest)"
proof -
  from assms(1) obtain m e where n: "n = Fin m e" by (cases n) auto
  from num_to_string_render [OF assms(1) [unfolded n]] obtain ip fp ex where
    "num_to_string (Fin m e) = render_literal (m < 0) ip fp ex" "literal_ok ip fp ex"
    "mk_num (m < 0) (ip @ fp) (literal_exponent ex - int (length fp)) = Fin m e"
    by blast
  with parse_number_render [OF this(2) assms(2), of "m < 0"] n show ?thesis by simp
qed

lemma scan_decimal_num_to_string:
  assumes "canonical_num n"
  shows "scan_decimal (num_to_string n) = Some (n, [])"
proof -
  from assms(1) obtain m e where n: "n = Fin m e" by (cases n) auto
  have d: "delimited []" by (simp add: delimited_def)
  from num_to_string_render [OF assms(1) [unfolded n]] obtain ip fp ex where
    "num_to_string (Fin m e) = render_literal (m < 0) ip fp ex" "literal_ok ip fp ex"
    "mk_num (m < 0) (ip @ fp) (literal_exponent ex - int (length fp)) = Fin m e"
    by blast
  with scan_decimal_render [OF this(2) d, of "m < 0"] n show ?thesis by simp
qed

lemma norm_dec_canonical: "norm_dec m e = (m', e') \<Longrightarrow> canonical_num (Fin m' e')"
proof (induction m e rule: norm_dec.induct)
  case (1 m e)
  show ?case
  proof (cases "m = 0")
    case True
    with 1(2) show ?thesis by (simp add: norm_dec_zero)
  next
    case False
    show ?thesis
    proof (cases "m mod 10 = 0")
      case True
      with False 1(2) have "norm_dec (m div 10) (e + 1) = (m', e')"
        by (subst (asm) norm_dec.simps) simp
      with 1(1) False True show ?thesis by simp
    next
      case nz: False
      with 1(2) show ?thesis by (simp add: norm_dec_fixed)
    qed
  qed
qed

lemma mk_num_canonical_num: "canonical_num (mk_num neg ds e)"
proof -
  obtain m' e' where "norm_dec (if neg then - int (digits_val ds) else int (digits_val ds)) e = (m', e')"
    by fastforce
  then show ?thesis
    using norm_dec_canonical [of _ e m' e'] by (simp add: mk_num_def Let_def)
qed

lemma scan_decimal_result:
  "scan_decimal s = Some (n, r) \<Longrightarrow> n = PosInfinity \<or> n = NegInfinity \<or> canonical_num n"
  by (auto simp: scan_decimal_def Let_def mk_num_canonical_num split: prod.splits if_splits)

lemma parseFloat_result:
  "parseFloat s = NaN \<or> parseFloat s = PosInfinity \<or> parseFloat s = NegInfinity
   \<or> canonical_num (parseFloat s)"
  by (auto simp: parseFloat_def split: option.splits dest: scan_decimal_result)

lemma render_literal_chars:
  assumes "literal_ok ip fp ex"
  shows "list_all (\<lambda>c. is_digit c \<or> c \<in> set ''.e+-'') (render_literal neg ip fp ex)"
  using assms
  by (cases ex) (auto simp: literal_ok_def render_literal_def list_all_iff)

lemma render_literal_nonempty: "literal_ok ip fp ex \<Longrightarrow> render_literal neg ip fp ex \<noteq> []"
  by (simp add: literal_ok_def render_literal_def)

lemma literal_char_not_space: "is_digit c \<or> c \<in> set ''.e+-'' \<Longrightarrow> \<not> is_js_space c"
  by (auto simp: is_digit_def is_js_space_def)

lemma trim_js_no_space:
  assumes "list_all (\<lambda>c. \<not> is_js_space c) s"
  shows "dropWhile is_js_space s = s" and "trim_js s = s"
proof -
  show a: "dropWhile is_js_space s = s"
    using assms by (cases s) auto
  have "list_all (\<lambda>c. \<not> is_js_space c) (rev s)" using assms by (simp add: list_all_iff)
  then have "dropWhile is_js_space (rev s) = rev s" by (cases "rev s") auto
  with a show "trim_js s = s" by (simp add: trim_js_def)
qed

lemma radix_val_acc_zero: "ds \<noteq> [] \<Longrightarrow> radix_val_acc 0 acc ds = None"
  by (cases ds) (auto split: option.splits)

lemma non_decimal_literal_chars:
  assumes "list_all (\<lambda>c. is_digit c \<or> c \<in> set ''.e+-'') s"
  shows "non_decimal_literal s = None"
proof (cases s)
  case Nil
  then show ?thesis by (simp add: non_decimal_literal_def)
next
  case (Cons z t)
  show ?thesis
  proof (cases t)
    case Nil
    with Cons show ?thesis by (simp add: non_decimal_literal_def)
  next
    case c2: (Cons x ds)
    from assms Cons c2 have "is_digit x \<or> x \<in> set ''.e+-''" by simp
    then have "x \<noteq> CHR ''x''" "x \<noteq> CHR ''X''" "x \<noteq> CHR ''o''" "x \<noteq> CHR ''O''"
      "x \<noteq> CHR ''b''" "x \<noteq> CHR ''B''"
      by (auto simp: is_digit_def)
    then show ?thesis using Cons c2
      by (simp add: non_decimal_literal_def radix_val_acc_zero)
  qed
qed

lemma isNumber_num_to_string_canonical:
  assumes "canonical_num n"
  shows "parseFloat (num_to_string n) = n \<and> isNumber (num_to_string n)"
proof -
  from assms obtain m e where n: "n = Fin m e" by (cases n) auto
  from num_to_string_render [OF assms [unfolded n]] obtain ip fp ex where
    r: "num_to_string n = render_literal (m < 0) ip fp ex" and ok: "literal_ok ip fp ex"
    unfolding n by blast
  have ch: "list_all (\<lambda>c. is_digit c \<or> c \<in> set ''.e+-'') (num_to_string n)"
    unfolding r by (rule render_literal_chars [OF ok])
  then have ns: "list_all (\<lambda>c. \<not> is_js_space c) (num_to_string n)"
    using literal_char_not_space by (auto simp: list_all_iff)
  have ne: "num_to_string n \<noteq> []" unfolding r by (rule render_literal_nonempty [OF ok])
  have sd: "scan_decimal (num_to_string n) = Some (n, [])"
    by (rule scan_decimal_num_to_string [OF assms])
  have pf: "parseFloat (num_to_string n) = n"
    by (simp add: parseFloat_def trim_js_no_space(1) [OF ns] sd)
  have sn: "StringToNumber (num_to_string n) = n"
    using ne by (simp add: StringToNumber_def trim_js_no_space(2) [OF ns]
        non_decimal_literal_chars [OF ch] sd)
  have "num_equal n n" using n by (simp add: num_equal_def)
  with pf sn n show ?thesis
    by (simp add: isNumber_def loose_eq_num_str_def)
qed

lemma isNumber_Infinity: "isNumber ''Infinity''" "isNumber ''-Infinity''"
  by code_simp+

lemma spec_isNumber_imp_isNumber: "spec_isNumber s \<Longrightarrow> isNumber s"
proof -
  assume a: "spec_isNumber s"
  then have nn: "parseFloat s \<noteq> NaN" and s: "num_to_string (parseFloat s) = s"
    by (auto simp: spec_isNumber_def)
  from parseFloat_result [of s] nn consider "parseFloat s = PosInfinity"
    | "parseFloat s = NegInfinity" | "canonical_num (parseFloat s)" by blast
  then show ?thesis
  proof cases
    case 1
    with s have "s = ''Infinity''" by simp
    then show ?thesis by (simp add: isNumber_Infinity)
  next
    case 2
    with s have "s = ''-Infinity''" by simp
    then show ?thesis by (simp add: isNumber_Infinity)
  next
    case 3
    from isNumber_num_to_string_canonical [OF 3] s show ?thesis by simp
  qed
qed

section \<open>Strings: quoting and reading back\<close>

lemma parse_string_body_consumes:
  "parse_string_body s = Inr (t, r) \<Longrightarrow> length t + length r < length s"
proof (induction s arbitrary: t r rule: length_induct)
  case (1 s)
  show ?case
  proof (cases s)
    case Nil
    with 1 show ?thesis by simp
  next
    case (Cons c cs)
    from parse_string_body_cases [of c cs] show ?thesis
    proof (elim disjE exE conjE)
      fix x cs'
      assume l: "length cs' \<le> length cs"
        and p: "parse_string_body (c # cs) = cons_result x (parse_string_body cs')"
      from p 1(2) Cons obtain t' where t': "parse_string_body cs' = Inr (t', r)" "t = x # t'"
        by (auto simp: cons_result_Inr)
      from l Cons have "length cs' < length s" by simp
      with 1(1) t'(1) have "length t' + length r < length cs'" by blast
      with l Cons t'(2) show ?thesis by simp
    next
      assume "parse_string_body (c # cs) = Inr ([], cs)"
      with 1(2) Cons show ?thesis by simp
    next
      assume "parse_string_body (c # cs) = Inl SyntaxError"
      with 1(2) Cons show ?thesis by simp
    next
      assume "parse_string_body (c # cs) = Inl OutsideModel"
      with 1(2) Cons show ?thesis by simp
    qed
  qed
qed

lemma parse_scalar_string:
  "parse_scalar s = Inr (JStr t, r) \<Longrightarrow> length t + length r < length s"
  by (auto simp: parse_scalar_def split: list.splits sum.splits if_splits
      dest: parse_string_body_consumes parse_number_shape)

lemma parse_value_string:
  "parse_value n s = Inr (JStr t, r) \<Longrightarrow> length t + length r < length s"
  by (cases n)
     (auto simp: parse_value.simps build_object_def split: list.splits sum.splits if_splits
      dest: parse_scalar_string)

lemma JSON_parse_string_shorter: "JSON_parse s = Inr (JStr t) \<Longrightarrow> length t < length s"
proof -
  assume "JSON_parse s = Inr (JStr t)"
  then obtain r where "parse_value (2 * length s + 2) (skip_ws s) = Inr (JStr t, r)"
    by (auto simp: JSON_parse_def split: sum.splits if_splits)
  from parse_value_string [OF this] length_skip_ws [of s] show ?thesis by simp
qed

lemma string_never_reads_back: "\<not> reads_back (JStr s)"
  using JSON_parse_string_shorter [of s s] by (auto simp: reads_back_def stringify_def)

lemma lt16_cases: "(k::nat) < 16 \<Longrightarrow> k \<in> {0,1,2,3,4,5,6,7,8,9,10,11,12,13,14,15}"
  by simp arith

lemma radix_digit_hex_char: "d < 16 \<Longrightarrow> radix_digit (hex_char d) = Some d"
proof -
  assume "d < 16"
  then have "d \<in> {0,1,2,3,4,5,6,7,8,9,10,11,12,13,14,15}" by (rule lt16_cases)
  then show ?thesis unfolding hex_char_def
    by (auto simp: radix_digit_def is_digit_def digit_val_def)
qed

lemma parse_hex4_escape:
  assumes "n < 32"
  shows "parse_hex4 (CHR ''0'' # CHR ''0'' # hex_char (n div 16) # hex_char (n mod 16) # after)
      = Some n"
proof -
  have a: "n div 16 < 16" using assms by simp
  have b: "n mod 16 < 16" by simp
  have z: "radix_digit CHR ''0'' = Some 0" by (simp add: radix_digit_def is_digit_def digit_val_def)
  show ?thesis
    using radix_digit_hex_char [OF a] radix_digit_hex_char [OF b] a b
    by (simp add: parse_hex4_def z)
qed

lemma parse_string_body_quote_char:
  "parse_string_body (quote_char c @ after) = cons_result c (parse_string_body after)"
proof -
  consider (q) "c = dquote" | (b) "c = bslash" | (bs) "c = CHR 0x08" | (ff) "c = CHR 0x0C"
    | (lf) "c = CHR 0x0A" | (cr) "c = CHR 0x0D" | (tab) "c = CHR 0x09"
    | (ctl) "c \<noteq> dquote" "c \<noteq> bslash" "c \<noteq> CHR 0x08" "c \<noteq> CHR 0x0C" "c \<noteq> CHR 0x0A"
        "c \<noteq> CHR 0x0D" "c \<noteq> CHR 0x09" "(of_char c :: nat) < 32"
    | (plain) "c \<noteq> dquote" "c \<noteq> bslash" "\<not> (of_char c :: nat) < 32"
    by fastforce
  then show ?thesis
  proof cases
    case ctl
    have h: "parse_hex4 (CHR ''0'' # CHR ''0'' # hex_char (of_char c div 16)
        # hex_char (of_char c mod 16) # after) = Some (of_char c)"
      by (rule parse_hex4_escape [OF ctl(8)])
    have lt: "(of_char c :: nat) < 256" using ctl(8) by simp
    show ?thesis using ctl h lt by (simp add: quote_char_def)
  next
    case plain
    then have "quote_char c = [c]"
      by (auto simp: quote_char_def)
    with plain show ?thesis by simp
  qed (simp_all add: quote_char_def unescape_def)
qed

lemma parse_string_body_quoted:
  "parse_string_body (concat (map quote_char s) @ dquote # rest) = Inr (s, rest)"
proof (induction s)
  case Nil
  show ?case by simp
next
  case (Cons c s)
  have "parse_string_body (concat (map quote_char (c # s)) @ dquote # rest)
      = parse_string_body (quote_char c @ (concat (map quote_char s) @ dquote # rest))"
    by simp
  also have "\<dots> = cons_result c (parse_string_body (concat (map quote_char s) @ dquote # rest))"
    by (rule parse_string_body_quote_char)
  finally show ?case using Cons by (simp add: cons_result_def)
qed

section \<open>Evaluations and basic facts\<close>

lemma JSON_parse_hello: "JSON_parse ''hello'' = Inl SyntaxError"
  by code_simp

lemma JSON_parse_123: "JSON_parse ''123'' = Inr (JNum (Fin 123 0))"
  by code_simp

lemma JSON_parse_null: "JSON_parse ''null'' = Inr JNull"
  by code_simp

lemma JSON_parse_arr: "JSON_parse ''[1]'' = Inr (JArr [JNum (Fin 1 0)])"
  by code_simp

lemma typeof_string_iff: "typeof v = ''string'' \<longleftrightarrow> (\<exists>s. v = JStr s)"
  by (cases v) auto



lemma JSON_stringify_null: "JSON_stringify JNull = JStr ''null''"
  by (simp add: JSON_stringify_def)

lemma JSON_stringify_42: "JSON_stringify (JNum (Fin 42 0)) = JStr ''42''"
  by code_simp

lemma JSON_stringify_text: "JSON_stringify (JStr ''text'') = JStr (dquote # ''text'' @ [dquote])"
  by code_simp

lemma isNumber_42: "isNumber ''42''"
  by code_simp

lemma isNumber_42_0: "isNumber ''42.0''"
  by code_simp

lemma parseFloat_42: "parseFloat ''42'' = Fin 42 0"
  by code_simp

lemma parseFloat_42_0: "parseFloat ''42.0'' = Fin 42 0"
  by code_simp

lemma num_to_string_42: "num_to_string (Fin 42 0) = ''42''"
  by code_simp

lemma spec_isNumber_42: "spec_isNumber ''42''"
  by code_simp

lemma isNumber_abc: "\<not> isNumber ''abc''"
  by code_simp

lemma isJSON_abc: "\<not> isJSON ''abc''"
  by code_simp

lemma isJSON_42: "\<not> isJSON ''42''"
  by code_simp

lemma isJSON_arr: "isJSON ''[1]''"
  by code_simp

lemma is_string_stringify: "is_string (stringify v) \<longleftrightarrow> v \<noteq> JUndefined"
  by (cases v) (auto simp: stringify_def JSON_stringify_def)

lemma reads_backD: "reads_back v \<Longrightarrow> \<exists>t. stringify v = JStr t \<and> JSON_parse t = Inr v"
  by (auto simp: reads_back_def split: jsval.splits)

section \<open>Facts about the facade\<close>

lemma setItem_entries:
  "stringify v = JStr t \<Longrightarrow> entries (snd (setItem k v st)) = (entries st)(k \<mapsto> t)"
  by (simp add: setItem_def AsyncStorage_setItem_def record_call_def)

lemma multiGet_two:
  "fst (multiGet [k1, k2] st) = map_result parse_pair [(k1, entries st k1), (k2, entries st k2)]"
  by (simp add: multiGet_def AsyncStorage_multiGet_def)

lemma getItem_result:
  "fst (getItem k st) = (case entries st k of None \<Rightarrow> Inr JNull | Some t \<Rightarrow> JSON_parse t)"
  by (simp add: getItem_def AsyncStorage_getItem_def split: option.splits)

lemma parse_pair_getItem:
  "parse_pair (k, entries st k)
     = (case fst (getItem k st) of Inl e \<Rightarrow> Inl e | Inr v \<Rightarrow> Inr (k, v))"
  by (simp add: parse_pair_def getItem_result split: option.splits sum.splits)

lemma map_result_all:
  "\<forall>x \<in> set xs. h x = Inr (g x) \<Longrightarrow> map_result h xs = Inr (map g xs)"
  by (induction xs) auto

lemma map_result_fails:
  "\<exists>x \<in> set xs. \<exists>e. h x = Inl e \<Longrightarrow> \<exists>e. map_result h xs = Inl e"
proof (induction xs)
  case Nil
  then show ?case by simp
next
  case (Cons x xs)
  show ?case
  proof (cases "h x")
    case (Inl e)
    then show ?thesis by simp
  next
    case (Inr y)
    with Cons.prems have "\<exists>x \<in> set xs. \<exists>e. h x = Inl e" by auto
    from Cons.IH [OF this] obtain e where "map_result h xs = Inl e" by blast
    with Inr show ?thesis by simp
  qed
qed

lemma multiGet_result:
  "fst (multiGet ks st) = map_result parse_pair (map (\<lambda>k. (k, entries st k)) ks)"
  by (simp add: multiGet_def AsyncStorage_multiGet_def)

lemma setItem_entries_other:
  "k' \<noteq> k \<Longrightarrow> entries (snd (setItem k v st)) k' = entries st k'"
  by (simp add: setItem_def AsyncStorage_setItem_def record_call_def Let_def
      split: jsval.splits)

lemma setItem_entries_string: "entries (snd (setItem k (JStr s) st)) k = Some s"
  by (simp add: setItem_entries stringify_def)

text \<open>
  A successful \<^verbatim>\<open>multiGet\<close> answers position by position: the key at each position is
  the key asked for there, and the value is the parse of that key's text, or \<^verbatim>\<open>null\<close>
  when the key has no entry.
\<close>

lemma map_result_parse_pair:
  "map_result parse_pair (map (\<lambda>k. (k, m k)) ks) = Inr ps \<Longrightarrow>
     map fst ps = ks
     \<and> (\<forall>i < length ks.
          case m (ks ! i) of
            None \<Rightarrow> snd (ps ! i) = JNull
          | Some t \<Rightarrow> JSON_parse t = Inr (snd (ps ! i)))"
proof (induction ks arbitrary: ps)
  case Nil
  then show ?case by simp
next
  case (Cons k ks)
  from Cons.prems obtain p ps' where p: "parse_pair (k, m k) = Inr p"
    and ps': "map_result parse_pair (map (\<lambda>k. (k, m k)) ks) = Inr ps'"
    and ps: "ps = p # ps'"
    by (auto split: sum.splits)
  from p have first: "fst p = k"
    "case m k of None \<Rightarrow> snd p = JNull | Some t \<Rightarrow> JSON_parse t = Inr (snd p)"
    by (auto simp: parse_pair_def split: option.splits sum.splits)
  from Cons.IH [OF ps'] have others: "map fst ps' = ks"
    "\<forall>i < length ks. case m (ks ! i) of None \<Rightarrow> snd (ps' ! i) = JNull
        | Some t \<Rightarrow> JSON_parse t = Inr (snd (ps' ! i))"
    by auto
  show ?case
  proof (intro conjI allI impI)
    show "map fst ps = k # ks" using first others ps by simp
  next
    fix i assume "i < length (k # ks)"
    then show "case m ((k # ks) ! i) of None \<Rightarrow> snd (ps ! i) = JNull
        | Some t \<Rightarrow> JSON_parse t = Inr (snd (ps ! i))"
      using first others ps by (cases i) (auto split: option.splits)
  qed
qed

lemma isNumber_iff:
  "isNumber s \<longleftrightarrow> \<not> isNaN (parseFloat s) \<and> num_equal (parseFloat s) (StringToNumber s)"
  by (simp add: isNumber_def loose_eq_num_str_def Let_def)

lemma parseValue_number_iff_isNumber:
  "(\<exists>n. parseValue (JStr s) = Inr (JNum n)) \<longleftrightarrow> isNumber s"
proof (cases "isNumber s")
  case True
  then show ?thesis by (simp add: parseValue_def)
next
  case False
  show ?thesis
  proof (cases "isJSON s")
    case True
    with False isJSON_parse_shape [OF True] show ?thesis
      by (auto simp: parseValue_def)
  next
    case nj: False
    with False show ?thesis by (simp add: parseValue_def)
  qed
qed

section \<open>Values: writing JSON and reading it back\<close>

text \<open>
  \<^verbatim>\<open>JSON.parse\<close> undoes \<^verbatim>\<open>JSON.stringify\<close> on every JSON-representable value. The
  proof follows the parser: a value's text is followed by a delimiter, the text of a
  non-empty array is read by \<open>parse_elements\<close> and that of a non-empty object by
  \<open>parse_members\<close>, with fuel to spare at each step.
\<close>

lemma value_start_not_ws: "value_start c \<Longrightarrow> \<not> is_json_ws c"
  by (auto simp: value_start_def is_json_ws_def is_digit_def)

lemma skip_ws_Cons: "\<not> is_json_ws c \<Longrightarrow> skip_ws (c # u) = c # u"
  by (simp add: skip_ws_def)

lemma skip_ws_value: "t \<noteq> [] \<Longrightarrow> value_start (hd t) \<Longrightarrow> skip_ws (t @ u) = t @ u"
  by (cases t) (auto simp: skip_ws_Cons value_start_not_ws)

lemma skip_ws_delims:
  "skip_ws (CHR '','' # u) = CHR '','' # u" "skip_ws (CHR '']'' # u) = CHR '']'' # u"
  "skip_ws (CHR ''}'' # u) = CHR ''}'' # u" "skip_ws (CHR '':'' # u) = CHR '':'' # u"
  by (simp_all add: skip_ws_def is_json_ws_def)

lemma num_to_string_head:
  assumes "canonical_num n"
  shows "num_to_string n \<noteq> [] \<and> (hd (num_to_string n) = CHR ''-'' \<or> is_digit (hd (num_to_string n)))"
proof -
  from assms obtain m e where n: "n = Fin m e" by (cases n) auto
  from num_to_string_render [OF assms [unfolded n]] obtain ip fp ex where
    r: "num_to_string n = render_literal (m < 0) ip fp ex" and ok: "literal_ok ip fp ex"
    unfolding n by blast
  from ok have "ip \<noteq> []" "is_digit (hd ip)"
    by (cases ip; auto simp: literal_ok_def)+
  then show ?thesis unfolding r
    by (cases ip) (auto simp: render_literal_def)
qed

lemma parse_value_true: "parse_value (Suc n) (''true'' @ rest) = Inr (JBool True, rest)"
  by (simp add: parse_value.simps parse_scalar_def is_digit_def)

lemma parse_value_false: "parse_value (Suc n) (''false'' @ rest) = Inr (JBool False, rest)"
  by (simp add: parse_value.simps parse_scalar_def is_digit_def)

lemma parse_value_number:
  assumes "canonical_num x" and "delimited rest"
  shows "parse_value (Suc n) (num_to_string x @ rest) = Inr (JNum x, rest)"
proof -
  from num_to_string_head [OF assms(1)] obtain c cs where
    s: "num_to_string x = c # cs" and c: "c = CHR ''-'' \<or> is_digit c"
    by (cases "num_to_string x") auto
  from c have nb: "c \<noteq> CHR ''{''" "c \<noteq> CHR ''[''" "c \<noteq> dquote"
    by (auto simp: is_digit_def)
  have "parse_value (Suc n) ((c # cs) @ rest) = parse_number ((c # cs) @ rest)"
    using nb c by (simp add: parse_value.simps parse_scalar_def)
  with parse_number_num_to_string [OF assms] s show ?thesis by simp
qed

lemma parse_value_quoted:
  "parse_value (Suc n) (QuoteJSONString s @ rest) = Inr (JStr s, rest)"
  by (simp add: parse_value.simps parse_scalar_def QuoteJSONString_def parse_string_body_quoted)

lemma parse_value_array:
  assumes "body \<noteq> []" and "value_start (hd body)"
  shows "parse_value (Suc n) (CHR ''['' # body @ u)
      = (case parse_elements n (body @ u) of
           Inl e \<Rightarrow> Inl e
         | Inr (vs, r) \<Rightarrow> Inr (JArr vs, r))"
proof -
  from assms obtain c cs where b: "body = c # cs" and c: "value_start c"
    by (cases body) auto
  from c have "c \<noteq> CHR '']''" by (auto simp: value_start_def is_digit_def)
  moreover have "skip_ws (body @ u) = c # cs @ u"
    using skip_ws_value [OF assms, of u] b by simp
  ultimately show ?thesis using b by (simp add: parse_value.simps)
qed

lemma parse_value_object:
  assumes "body \<noteq> []" and "hd body = dquote"
  shows "parse_value (Suc n) (CHR ''{'' # body @ u)
      = (case parse_members n (body @ u) of
           Inl e \<Rightarrow> Inl e
         | Inr (kvs, r) \<Rightarrow> Inr (build_object kvs, r))"
proof -
  from assms obtain cs where b: "body = dquote # cs"
    by (cases body) auto
  have "skip_ws (body @ u) = dquote # cs @ u"
    using b by (simp add: skip_ws_def is_json_ws_def)
  then show ?thesis using b by (simp add: parse_value.simps)
qed

lemma parse_value_empty_array: "parse_value (Suc n) (''[]'' @ rest) = Inr (JArr [], rest)"
  by (simp add: parse_value.simps skip_ws_delims)

lemma parse_value_empty_object: "parse_value (Suc n) (''{}'' @ rest) = Inr (JObj [], rest)"
  by (simp add: parse_value.simps skip_ws_delims)

lemma parse_key_quoted:
  assumes "skip_ws u = u"
  shows "parse_key (QuoteJSONString k @ CHR '':'' # u) = Inr (k, u)"
proof -
  have "QuoteJSONString k @ CHR '':'' # u
      = dquote # (concat (map quote_char k) @ dquote # CHR '':'' # u)"
    by (simp add: QuoteJSONString_def)
  then show ?thesis
    using assms by (simp add: parse_key_def parse_string_body_quoted skip_ws_delims)
qed

lemma join_comma_Cons: "ts \<noteq> [] \<Longrightarrow> join_comma (t # ts) = t @ CHR '','' # join_comma ts"
  by (cases ts) auto

lemma JSON_str_head:
  "representable v \<Longrightarrow> \<exists>t. JSON_str v = Some t \<and> t \<noteq> [] \<and> value_start (hd t)"
proof (cases v)
  case (JNum n)
  assume "representable v"
  with JNum have c: "canonical_num n" by simp
  then have "is_finite n" by (cases n) auto
  with num_to_string_head [OF c] JNum show ?thesis
    by (auto simp: value_start_def)
qed (auto simp: value_start_def QuoteJSONString_def is_digit_def)

lemma elems_text_nonempty: "xs \<noteq> [] \<Longrightarrow> JSON_str_elems xs \<noteq> []"
  by (cases xs) auto

lemma elems_text_head:
  assumes "representable_elems xs" and "xs \<noteq> []"
  shows "join_comma (JSON_str_elems xs) \<noteq> [] \<and> value_start (hd (join_comma (JSON_str_elems xs)))"
proof -
  from assms obtain x ys where xs: "xs = x # ys" and x: "representable x" by (cases xs) auto
  from JSON_str_head [OF x] obtain t where t: "JSON_str x = Some t" "t \<noteq> []" "value_start (hd t)"
    by blast
  show ?thesis
  proof (cases ys)
    case Nil
    with xs t show ?thesis by simp
  next
    case (Cons y zs)
    then have "JSON_str_elems ys \<noteq> []" by simp
    with xs t show ?thesis by (simp add: join_comma_Cons)
  qed
qed

lemma members_text_nonempty:
  "representable_members kvs \<Longrightarrow> kvs \<noteq> [] \<Longrightarrow> JSON_str_members kvs \<noteq> []"
proof (cases kvs)
  case (Cons p ps)
  assume r: "representable_members kvs"
  obtain k v where p: "p = (k, v)" by (cases p)
  with r Cons have "representable v" by simp
  from JSON_str_head [OF this] Cons p show ?thesis by auto
qed simp

lemma members_text_head:
  assumes "representable_members kvs" and "kvs \<noteq> []"
  shows "join_comma (JSON_str_members kvs) \<noteq> [] \<and> hd (join_comma (JSON_str_members kvs)) = dquote"
proof -
  from assms obtain k v ps where kvs: "kvs = (k, v) # ps" and v: "representable v"
    and ps: "representable_members ps"
    by (cases kvs) auto
  from JSON_str_head [OF v] obtain t where t: "JSON_str v = Some t" by blast
  show ?thesis
  proof (cases ps)
    case Nil
    with kvs t show ?thesis by (simp add: QuoteJSONString_def)
  next
    case (Cons q qs)
    then have "JSON_str_members ps \<noteq> []" using members_text_nonempty [OF ps] by simp
    with kvs t show ?thesis by (simp add: join_comma_Cons QuoteJSONString_def)
  qed
qed

lemma delimited_simps:
  "delimited (CHR '','' # u)" "delimited (CHR '']'' # u)" "delimited (CHR ''}'' # u)" "delimited []"
  by (simp_all add: delimited_def)

lemma round_trip_aux:
  "representable v \<longrightarrow>
     (\<forall>n rest. delimited rest \<longrightarrow> 2 * length (the (JSON_str v) @ rest) < n \<longrightarrow>
        parse_value n (the (JSON_str v) @ rest) = Inr (v, rest))"
  "representable_elems xs \<longrightarrow> xs \<noteq> [] \<longrightarrow>
     (\<forall>n rest. 2 * length (join_comma (JSON_str_elems xs) @ CHR '']'' # rest) + 1 < n \<longrightarrow>
        parse_elements n (join_comma (JSON_str_elems xs) @ CHR '']'' # rest) = Inr (xs, rest))"
  "representable_members kvs \<longrightarrow> kvs \<noteq> [] \<longrightarrow>
     (\<forall>n rest. 2 * length (join_comma (JSON_str_members kvs) @ CHR ''}'' # rest) + 1 < n \<longrightarrow>
        parse_members n (join_comma (JSON_str_members kvs) @ CHR ''}'' # rest) = Inr (kvs, rest))"
proof (induction v and xs and kvs
    rule: representable_representable_elems_representable_members.induct)
  case 1
  show ?case by simp
next
  case 2
  show ?case
  proof (intro impI allI)
    fix n rest assume "2 * length (the (JSON_str JNull) @ rest) < n"
    then obtain n' where "n = Suc n'" by (cases n) auto
    then show "parse_value n (the (JSON_str JNull) @ rest) = Inr (JNull, rest)"
      using parse_value_null_intro [of n' rest] by simp
  qed
next
  case (3 b)
  show ?case
  proof (intro impI allI)
    fix n rest assume "2 * length (the (JSON_str (JBool b)) @ rest) < n"
    then obtain n' where "n = Suc n'" by (cases n) auto
    then show "parse_value n (the (JSON_str (JBool b)) @ rest) = Inr (JBool b, rest)"
      using parse_value_true [of n' rest] parse_value_false [of n' rest] by simp
  qed
next
  case (4 x)
  show ?case
  proof (intro impI allI)
    fix n rest
    assume r: "representable (JNum x)" and d: "delimited rest"
      and "2 * length (the (JSON_str (JNum x)) @ rest) < n"
    then obtain n' where n: "n = Suc n'" by (cases n) auto
    from r have c: "canonical_num x" by simp
    then have "is_finite x" by (cases x) auto
    then show "parse_value n (the (JSON_str (JNum x)) @ rest) = Inr (JNum x, rest)"
      using parse_value_number [OF c d, of n'] n by simp
  qed
next
  case (5 s)
  show ?case
  proof (intro impI allI)
    fix n rest assume "2 * length (the (JSON_str (JStr s)) @ rest) < n"
    then obtain n' where "n = Suc n'" by (cases n) auto
    then show "parse_value n (the (JSON_str (JStr s)) @ rest) = Inr (JStr s, rest)"
      using parse_value_quoted [of n' s rest] by simp
  qed
next
  case (6 xs)
  show ?case
  proof (intro impI allI)
    fix n rest
    assume r: "representable (JArr xs)"
      and f: "2 * length (the (JSON_str (JArr xs)) @ rest) < n"
    then obtain n' where n: "n = Suc n'" by (cases n) auto
    show "parse_value n (the (JSON_str (JArr xs)) @ rest) = Inr (JArr xs, rest)"
    proof (cases "xs = []")
      case True
      then show ?thesis using parse_value_empty_array [of n' rest] n by simp
    next
      case False
      let ?body = "join_comma (JSON_str_elems xs)"
      from r have re: "representable_elems xs" by simp
      note h = elems_text_head [OF re False]
      have t: "the (JSON_str (JArr xs)) @ rest = CHR ''['' # ?body @ CHR '']'' # rest" by simp
      from f n have "2 * length (?body @ CHR '']'' # rest) + 1 < n'" by simp
      with "6" re False have "parse_elements n' (?body @ CHR '']'' # rest) = Inr (xs, rest)"
        by blast
      then show ?thesis
        unfolding t n using parse_value_array [of ?body n' "CHR '']'' # rest"] h by simp
    qed
  qed
next
  case (7 kvs)
  show ?case
  proof (intro impI allI)
    fix n rest
    assume r: "representable (JObj kvs)"
      and f: "2 * length (the (JSON_str (JObj kvs)) @ rest) < n"
    then obtain n' where n: "n = Suc n'" by (cases n) auto
    show "parse_value n (the (JSON_str (JObj kvs)) @ rest) = Inr (JObj kvs, rest)"
    proof (cases "kvs = []")
      case True
      then show ?thesis using parse_value_empty_object [of n' rest] n by simp
    next
      case False
      let ?body = "join_comma (JSON_str_members kvs)"
      from r have rm: "representable_members kvs" and oo: "foldl obj_put [] kvs = kvs" by simp_all
      note h = members_text_head [OF rm False]
      have t: "the (JSON_str (JObj kvs)) @ rest = CHR ''{'' # ?body @ CHR ''}'' # rest" by simp
      from f n have "2 * length (?body @ CHR ''}'' # rest) + 1 < n'" by simp
      with "7" rm False have "parse_members n' (?body @ CHR ''}'' # rest) = Inr (kvs, rest)"
        by blast
      then show ?thesis
        unfolding t n using parse_value_object [of ?body n' "CHR ''}'' # rest"] h oo
        by (simp add: build_object_def)
    qed
  qed
next
  case 8
  show ?case by simp
next
  case (9 x xs)
  show ?case
  proof (intro impI allI)
    fix n rest
    assume r: "representable_elems (x # xs)"
      and f: "2 * length (join_comma (JSON_str_elems (x # xs)) @ CHR '']'' # rest) + 1 < n"
    then obtain n' where n: "n = Suc n'" by (cases n) auto
    from r have rx: "representable x" and rxs: "representable_elems xs" by simp_all
    from JSON_str_head [OF rx] obtain t where t: "JSON_str x = Some t" by blast
    show "parse_elements n (join_comma (JSON_str_elems (x # xs)) @ CHR '']'' # rest)
        = Inr (x # xs, rest)"
    proof (cases "xs = []")
      case True
      have shape: "join_comma (JSON_str_elems (x # xs)) @ CHR '']'' # rest = t @ CHR '']'' # rest"
        using True t by simp
      from f n have "2 * length (t @ CHR '']'' # rest) < n'" unfolding shape by simp
      with "9"(1) rx t have "parse_value n' (t @ CHR '']'' # rest) = Inr (x, CHR '']'' # rest)"
        using delimited_simps(2) [of rest] by simp
      then show ?thesis
        unfolding shape n using True by (simp add: parse_elements.simps skip_ws_delims)
    next
      case False
      let ?J = "join_comma (JSON_str_elems xs)"
      have shape: "join_comma (JSON_str_elems (x # xs)) @ CHR '']'' # rest
          = t @ CHR '','' # (?J @ CHR '']'' # rest)"
        using t elems_text_nonempty [OF False] by (simp add: join_comma_Cons)
      from f n have f1: "2 * length (t @ CHR '','' # (?J @ CHR '']'' # rest)) < n'"
        and f2: "2 * length (?J @ CHR '']'' # rest) + 1 < n'"
        unfolding shape by simp_all
      from "9"(1) rx t f1 have pv: "parse_value n' (t @ CHR '','' # (?J @ CHR '']'' # rest))
          = Inr (x, CHR '','' # (?J @ CHR '']'' # rest))"
        using delimited_simps(1) [of "?J @ CHR '']'' # rest"] by simp
      from "9"(2) rxs False f2 have pe: "parse_elements n' (?J @ CHR '']'' # rest) = Inr (xs, rest)"
        by blast
      note h = elems_text_head [OF rxs False]
      have sk: "skip_ws (?J @ CHR '']'' # rest) = ?J @ CHR '']'' # rest"
        using skip_ws_value [of ?J] h by simp
      show ?thesis
        unfolding shape n by (simp add: parse_elements.simps(2) [of n'] pv pe sk skip_ws_delims)
    qed
  qed
next
  case 10
  show ?case by simp
next
  case (11 k v kvs)
  show ?case
  proof (intro impI allI)
    fix n rest
    assume r: "representable_members ((k, v) # kvs)"
      and f: "2 * length (join_comma (JSON_str_members ((k, v) # kvs)) @ CHR ''}'' # rest) + 1 < n"
    then obtain n' where n: "n = Suc n'" by (cases n) auto
    from r have rv: "representable v" and rk: "representable_members kvs" by simp_all
    from JSON_str_head [OF rv] obtain t where t: "JSON_str v = Some t" "t \<noteq> []" "value_start (hd t)"
      by blast
    show "parse_members n (join_comma (JSON_str_members ((k, v) # kvs)) @ CHR ''}'' # rest)
        = Inr ((k, v) # kvs, rest)"
    proof (cases "kvs = []")
      case True
      have shape: "join_comma (JSON_str_members ((k, v) # kvs)) @ CHR ''}'' # rest
          = QuoteJSONString k @ CHR '':'' # (t @ CHR ''}'' # rest)"
        using True t by simp
      have sk: "skip_ws (t @ CHR ''}'' # rest) = t @ CHR ''}'' # rest"
        using skip_ws_value [OF t(2,3)] by simp
      have pk: "parse_key (QuoteJSONString k @ CHR '':'' # (t @ CHR ''}'' # rest))
          = Inr (k, t @ CHR ''}'' # rest)"
        by (rule parse_key_quoted [OF sk])
      from f n have "2 * length (t @ CHR ''}'' # rest) < n'" unfolding shape by simp
      with "11"(1) rv t have pv: "parse_value n' (t @ CHR ''}'' # rest) = Inr (v, CHR ''}'' # rest)"
        using delimited_simps(3) [of rest] by simp
      show ?thesis
        unfolding shape n using True by (simp add: parse_members.simps(2) [of n'] pk pv skip_ws_delims)
    next
      case False
      let ?J = "join_comma (JSON_str_members kvs)"
      have shape: "join_comma (JSON_str_members ((k, v) # kvs)) @ CHR ''}'' # rest
          = QuoteJSONString k @ CHR '':'' # (t @ CHR '','' # (?J @ CHR ''}'' # rest))"
        using t members_text_nonempty [OF rk False] by (simp add: join_comma_Cons)
      have sk: "skip_ws (t @ CHR '','' # (?J @ CHR ''}'' # rest)) = t @ CHR '','' # (?J @ CHR ''}'' # rest)"
        using skip_ws_value [OF t(2,3)] by simp
      have pk: "parse_key (QuoteJSONString k @ CHR '':'' # (t @ CHR '','' # (?J @ CHR ''}'' # rest)))
          = Inr (k, t @ CHR '','' # (?J @ CHR ''}'' # rest))"
        by (rule parse_key_quoted [OF sk])
      from f n have f1: "2 * length (t @ CHR '','' # (?J @ CHR ''}'' # rest)) < n'"
        and f2: "2 * length (?J @ CHR ''}'' # rest) + 1 < n'"
        unfolding shape by simp_all
      from "11"(1) rv t f1 have pv: "parse_value n' (t @ CHR '','' # (?J @ CHR ''}'' # rest))
          = Inr (v, CHR '','' # (?J @ CHR ''}'' # rest))"
        using delimited_simps(1) [of "?J @ CHR ''}'' # rest"] by simp
      from "11"(2) rk False f2 have pm: "parse_members n' (?J @ CHR ''}'' # rest) = Inr (kvs, rest)"
        by blast
      note h = members_text_head [OF rk False]
      have sj: "skip_ws (?J @ CHR ''}'' # rest) = ?J @ CHR ''}'' # rest"
        using h by (cases ?J) (auto simp: skip_ws_def is_json_ws_def)
      show ?thesis
        unfolding shape n by (simp add: parse_members.simps(2) [of n'] pk pv pm sj skip_ws_delims)
    qed
  qed
qed

lemma JSON_round_trip:
  assumes "representable v"
  shows "\<exists>t. JSON_str v = Some t \<and> JSON_parse t = Inr v"
proof -
  from JSON_str_head [OF assms] obtain t where t: "JSON_str v = Some t" "t \<noteq> []" "value_start (hd t)"
    by blast
  have sk: "skip_ws t = t" using skip_ws_value [OF t(2,3), of "[]"] by simp
  have "parse_value (2 * length t + 2) (the (JSON_str v) @ []) = Inr (v, [])"
    using round_trip_aux(1) [rule_format, OF assms delimited_simps(4), of "2 * length t + 2"] t(1)
    by simp
  then have "JSON_parse t = Inr v"
    using t(1) sk by (simp add: JSON_parse_def skip_ws_def)
  with t(1) show ?thesis by blast
qed

lemma representable_reads_back:
  assumes "representable v"
  shows "reads_back v \<longleftrightarrow> \<not> is_string v"
proof (cases "is_string v")
  case True
  then obtain s where "v = JStr s" by (cases v) auto
  then show ?thesis using string_never_reads_back [of s] by simp
next
  case False
  then have ns: "typeof v \<noteq> ''string''" by (cases v) auto
  from JSON_round_trip [OF assms] obtain t where "JSON_str v = Some t" "JSON_parse t = Inr v"
    by blast
  then have "reads_back v"
    using ns by (simp add: reads_back_def stringify_def JSON_stringify_def)
  with False show ?thesis by simp
qed

lemma setItem_getItem:
  "fst (getItem k (snd (setItem k v st)))
     = (case stringify v of JStr t \<Rightarrow> JSON_parse t | _ \<Rightarrow> (case entries st k of None \<Rightarrow> Inr JNull | Some t \<Rightarrow> JSON_parse t))"
  by (simp add: getItem_def setItem_def AsyncStorage_setItem_def AsyncStorage_getItem_def
      record_call_def Let_def split: jsval.splits option.splits)

lemma setItem_getItem_reads_back:
  "reads_back v \<Longrightarrow> fst (getItem k (snd (setItem k v st))) = Inr v"
  by (auto simp: setItem_getItem dest!: reads_backD)

text \<open>
  Members with different keys, none of them an array index, are in property order in
  whatever order they are listed.
\<close>

lemma foldl_obj_put_plain:
  assumes "distinct (map fst (acc @ kvs))" and "\<forall>k \<in> set (map fst kvs). array_index k = None"
  shows "foldl obj_put acc kvs = acc @ kvs"
  using assms
proof (induction kvs arbitrary: acc)
  case Nil
  show ?case by simp
next
  case (Cons p kvs)
  obtain k v where p: "p = (k, v)" by (cases p)
  from Cons.prems p have nk: "k \<notin> set (map fst acc)" and ai: "array_index k = None" by auto
  then have step: "obj_put acc p = acc @ [p]" using p by (simp add: obj_put_def)
  have "distinct (map fst ((acc @ [p]) @ kvs))" using Cons.prems(1) by simp
  moreover have "\<forall>k \<in> set (map fst kvs). array_index k = None" using Cons.prems(2) by simp
  ultimately have "foldl obj_put (acc @ [p]) kvs = (acc @ [p]) @ kvs" by (rule Cons.IH)
  with step show ?case by simp
qed

lemma representable_a1: "representable (JObj [(''a'', JNum (Fin 1 0))])"
  by (simp add: obj_put_def array_index_def is_digit_def)

section \<open>The properties of the specification\<close>

text \<open>
  C1 (round trip of \<^verbatim>\<open>setItem\<close> and \<^verbatim>\<open>getItem\<close>). The class comment of
  \<^verbatim>\<open>TypeSafeStorage\<close> declares \<^verbatim>\<open>userID: string\<close>, writes
  \<^verbatim>\<open>setItem("userID", "123")\<close> and types \<^verbatim>\<open>getItem("userID")\<close> as
  \<^verbatim>\<open>string | null\<close>. The code stores a string unquoted and reads it back with
  \<^verbatim>\<open>JSON.parse\<close>: for every key and every store, the value read after writing the string
  \<^verbatim>\<open>"123"\<close> is the number 123, and no string at all is read back as the string that was
  written. The round trip does hold for every JSON-representable value that is not a
  string.
\<close>

theorem setItem_getItem_numeric_string:
  "fst (getItem k (snd (setItem k (JStr ''123'') st))) = Inr (JNum (Fin 123 0))
   \<and> fst (getItem k (snd (setItem k (JStr s) st))) \<noteq> Inr (JStr s)
   \<and> (representable v \<longrightarrow> \<not> is_string v \<longrightarrow>
        fst (getItem k (snd (setItem k v st))) = Inr v)"
proof (intro conjI impI)
  show "fst (getItem k (snd (setItem k (JStr ''123'') st))) = Inr (JNum (Fin 123 0))"
    by (simp add: setItem_getItem stringify_def JSON_parse_123)
  show "fst (getItem k (snd (setItem k (JStr s) st))) \<noteq> Inr (JStr s)"
    using JSON_parse_string_shorter [of s s] by (auto simp: setItem_getItem stringify_def)
next
  assume "representable v" and "\<not> is_string v"
  then have "reads_back v" by (simp add: representable_reads_back)
  then show "fst (getItem k (snd (setItem k v st))) = Inr v"
    by (rule setItem_getItem_reads_back)
qed

text \<open>The object \<^verbatim>\<open>{a: 1}\<close> is stored as \<^verbatim>\<open>{"a":1}\<close> and read back.\<close>

theorem setItem_getItem_numeric_string_witness:
  "representable (JObj [(''a'', JNum (Fin 1 0))]) \<and> \<not> is_string (JObj [(''a'', JNum (Fin 1 0))])
   \<and> fst (getItem ''k'' (snd (setItem ''k'' (JObj [(''a'', JNum (Fin 1 0))]) empty_storage)))
       = Inr (JObj [(''a'', JNum (Fin 1 0))])"
  using setItem_getItem_numeric_string
    [of "''k''" empty_storage _ "JObj [(''a'', JNum (Fin 1 0))]"] representable_a1
  by simp

text \<open>
  C2 (merge validation). \<^verbatim>\<open>mergeItem\<close> never calls \<^verbatim>\<open>validateJSON\<close>: whatever the
  value, the key, the store and the store's way of merging, the store's merge primitive is
  invoked with \<^verbatim>\<open>JSON.stringify\<close> of the value. For \<^verbatim>\<open>null\<close>, \<^verbatim>\<open>42\<close> and
  \<^verbatim>\<open>"text"\<close> it is invoked with their JSON texts; \<^verbatim>\<open>validateJSON\<close>, had it been
  called, rejects each of the three.
\<close>

theorem mergeItem_reaches_store:
  "calls (snd (mergeItem mrg k v st)) = calls st @ [RawMergeItem k (JSON_stringify v)]
   \<and> calls (snd (mergeItem mrg k JNull st)) = calls st @ [RawMergeItem k (JStr ''null'')]
   \<and> calls (snd (mergeItem mrg k (JNum (Fin 42 0)) st))
       = calls st @ [RawMergeItem k (JStr ''42'')]
   \<and> calls (snd (mergeItem mrg k (JStr ''text'') st))
       = calls st @ [RawMergeItem k (JStr (dquote # ''text'' @ [dquote]))]
   \<and> validateJSON JNull = Inl (Error ''AsyncStorage.mergeItem expects a JSON valid value'')
   \<and> validateJSON (JNum (Fin 42 0))
       = Inl (Error ''AsyncStorage.mergeItem expects a JSON valid value'')
   \<and> validateJSON (JStr ''text'')
       = Inl (Error ''AsyncStorage.mergeItem expects a JSON valid value'')"
proof -
  have every: "calls (snd (mergeItem mrg k w st)) = calls st @ [RawMergeItem k (JSON_stringify w)]"
    for w
    by (simp add: mergeItem_def AsyncStorage_mergeItem_def record_call_def Let_def
        split: jsval.splits sum.splits)
  have rejected: "validateJSON JNull = Inl (Error ''AsyncStorage.mergeItem expects a JSON valid value'')"
    "validateJSON (JNum (Fin 42 0)) = Inl (Error ''AsyncStorage.mergeItem expects a JSON valid value'')"
    "validateJSON (JStr ''text'') = Inl (Error ''AsyncStorage.mergeItem expects a JSON valid value'')"
    by (simp_all add: validateJSON_def)
  show ?thesis
    using every [of v] every [of JNull] every [of "JNum (Fin 42 0)"] every [of "JStr ''text''"]
      rejected
    by (simp add: JSON_stringify_null JSON_stringify_42 JSON_stringify_text)
qed

text \<open>The same on the empty store, with a store that replaces the old text by the new.\<close>

theorem mergeItem_reaches_store_witness:
  "calls (snd (mergeItem (\<lambda>old new. Inr new) ''settings'' JNull empty_storage))
     = [RawMergeItem ''settings'' (JStr ''null'')]
   \<and> validateJSON JNull = Inl (Error ''AsyncStorage.mergeItem expects a JSON valid value'')"
  using mergeItem_reaches_store [of "\<lambda>old new. Inr new" "''settings''" JNull empty_storage]
  by (simp add: empty_storage_def JSON_stringify_null)

text \<open>
  C3 (a stored \<^verbatim>\<open>null\<close> against an absent key). \<^verbatim>\<open>getItem\<close> answers an absent key
  with \<^verbatim>\<open>null\<close>, and \<^verbatim>\<open>JSON.parse("null")\<close> is \<^verbatim>\<open>null\<close> as well: the two outcomes
  are the same value. What holds is the converse reading: \<^verbatim>\<open>getItem\<close> returns \<^verbatim>\<open>null\<close>
  exactly when the key has no entry or its text is \<^verbatim>\<open>null\<close> between optional white
  space; every other stored text gives an outcome different from that of an absent key.
\<close>

theorem getItem_null_iff:
  "fst (getItem k st) = Inr JNull \<longleftrightarrow>
     (entries st k = None
      \<or> (\<exists>t r. entries st k = Some t \<and> skip_ws t = ''null'' @ r \<and> skip_ws r = []))"
  by (cases "entries st k")
     (auto simp: getItem_def AsyncStorage_getItem_def JSON_parse_null_iff)

text \<open>The claim as stated fails: the stored text \<^verbatim>\<open>null\<close> and no entry read the same.\<close>

theorem getItem_null_stored_or_absent:
  "fst (getItem ''k'' (empty_storage\<lparr>entries := [''k'' \<mapsto> ''null'']\<rparr>)) = Inr JNull
   \<and> fst (getItem ''k'' empty_storage) = Inr JNull"
  by (simp add: getItem_def AsyncStorage_getItem_def empty_storage_def JSON_parse_null)

text \<open>
  C4 (plain-string passthrough). Writing \<^verbatim>\<open>"hello"\<close> stores the raw text \<^verbatim>\<open>hello\<close>
  without quotes, as the claim says; reading it back does not return \<^verbatim>\<open>"hello"\<close>:
  \<^verbatim>\<open>JSON.parse("hello")\<close> throws a syntax error.
\<close>

theorem setItem_getItem_hello:
  "entries (snd (setItem k (JStr ''hello'') st)) k = Some ''hello''
   \<and> fst (getItem k (snd (setItem k (JStr ''hello'') st))) = Inl SyntaxError"
  by (simp add: getItem_def setItem_def stringify_def AsyncStorage_setItem_def
      AsyncStorage_getItem_def record_call_def JSON_parse_hello)

text \<open>
  C5 (when the compatibility parser reads a number). \<^verbatim>\<open>parseValue\<close> returns a number for
  a text exactly when \<^verbatim>\<open>parseFloat\<close> of the text is not \<^verbatim>\<open>NaN\<close> and equals the
  numeric value of the whole text (the loose \<^verbatim>\<open>==\<close> converts the text to a number; it
  does not convert the number to a string). The number it returns is \<^verbatim>\<open>parseFloat\<close> of the
  text. A text that is the string form of the number it parses to is read as a number, as
  the specification says, and the text \<^verbatim>\<open>42\<close> gives the number 42; the converse is what
  fails.
\<close>

theorem parseValue_number:
  "((\<exists>n. parseValue (JStr s) = Inr (JNum n)) \<longleftrightarrow>
      \<not> isNaN (parseFloat s) \<and> num_equal (parseFloat s) (StringToNumber s))
   \<and> (isNumber s \<longrightarrow> parseValue (JStr s) = Inr (JNum (parseFloat s)))
   \<and> (spec_isNumber s \<longrightarrow> isNumber s)
   \<and> parseValue (JStr ''42'') = Inr (JNum (Fin 42 0))"
  using parseValue_number_iff_isNumber [of s] isNumber_iff [of s]
    spec_isNumber_imp_isNumber [of s]
  by (simp add: parseValue_def isNumber_42 parseFloat_42)

theorem parseValue_number_witness:
  "(isNumber ''42.0'' \<and> parseValue (JStr ''42.0'') = Inr (JNum (parseFloat ''42.0'')))
   \<and> (spec_isNumber ''42'' \<and> isNumber ''42'')"
  using parseValue_number [of "''42.0''"] parseValue_number [of "''42''"]
    isNumber_42_0 spec_isNumber_42
  by simp

text \<open>
  The claim as stated fails: the text \<^verbatim>\<open>42.0\<close> is read as the number 42, whose string
  form \<^verbatim>\<open>42\<close> is not the text.
\<close>

theorem isNumber_not_canonical:
  "parseValue (JStr ''42.0'') = Inr (JNum (Fin 42 0))
   \<and> num_to_string (Fin 42 0) \<noteq> ''42.0''
   \<and> isNumber ''42.0'' \<and> \<not> spec_isNumber ''42.0''"
  by (simp add: parseValue_def isNumber_42_0 parseFloat_42_0 spec_isNumber_def num_to_string_42
      del: num_to_string.simps)

text \<open>
  C6 (positional integrity of \<^verbatim>\<open>multiGet\<close>). \<^verbatim>\<open>multiGet\<close> answers position by
  position what \<^verbatim>\<open>getItem\<close> answers for each key: when \<^verbatim>\<open>getItem\<close> succeeds for
  every key asked for, \<^verbatim>\<open>multiGet\<close> succeeds with one pair per key, in the order asked,
  and when \<^verbatim>\<open>getItem\<close> throws for one of them, \<^verbatim>\<open>multiGet\<close> throws. The example of
  the claim, read for two different keys, holds in either write order for JSON-representable
  values that are not strings. It fails for a string: after \<^verbatim>\<open>set(k1, "hello")\<close> and a
  write to another key, in either order, \<^verbatim>\<open>multiGet([k1, k2])\<close> throws a syntax error,
  for all different keys, every second value and every store.
\<close>

theorem multiGet_positional:
  "((\<forall>k \<in> set ks. fst (getItem k st) = Inr (f k)) \<longrightarrow>
      fst (multiGet ks st) = Inr (map (\<lambda>k. (k, f k)) ks))
   \<and> ((\<exists>k \<in> set ks. \<exists>e. fst (getItem k st) = Inl e) \<longrightarrow>
      (\<exists>e. fst (multiGet ks st) = Inl e))
   \<and> (ka \<noteq> kb \<longrightarrow> representable va \<longrightarrow> \<not> is_string va \<longrightarrow>
        representable vb \<longrightarrow> \<not> is_string vb \<longrightarrow>
        fst (multiGet [ka, kb] (snd (setItem kb vb (snd (setItem ka va st)))))
          = Inr [(ka, va), (kb, vb)]
        \<and> fst (multiGet [ka, kb] (snd (setItem ka va (snd (setItem kb vb st)))))
          = Inr [(ka, va), (kb, vb)])
   \<and> (ka \<noteq> kb \<longrightarrow>
        fst (multiGet [ka, kb] (snd (setItem kb w (snd (setItem ka (JStr ''hello'') st)))))
          = Inl SyntaxError
        \<and> fst (multiGet [ka, kb] (snd (setItem ka (JStr ''hello'') (snd (setItem kb w st)))))
          = Inl SyntaxError)"
proof (intro conjI impI)
  assume "\<forall>k \<in> set ks. fst (getItem k st) = Inr (f k)"
  then have "\<forall>p \<in> set (map (\<lambda>k. (k, entries st k)) ks). parse_pair p = Inr (fst p, f (fst p))"
    by (auto simp: parse_pair_getItem)
  from map_result_all [OF this] show "fst (multiGet ks st) = Inr (map (\<lambda>k. (k, f k)) ks)"
    by (simp add: multiGet_result comp_def)
next
  assume "\<exists>k \<in> set ks. \<exists>e. fst (getItem k st) = Inl e"
  then obtain k e where k: "k \<in> set ks" "fst (getItem k st) = Inl e" by blast
  then have "parse_pair (k, entries st k) = Inl e" by (simp add: parse_pair_getItem)
  with k(1) have "\<exists>p \<in> set (map (\<lambda>k. (k, entries st k)) ks). \<exists>e. parse_pair p = Inl e"
    by force
  from map_result_fails [OF this] show "\<exists>e. fst (multiGet ks st) = Inl e"
    by (simp add: multiGet_result)
next
  assume ne: "ka \<noteq> kb" and "representable va" "\<not> is_string va"
    and "representable vb" "\<not> is_string vb"
  then have "reads_back va" "reads_back vb" by (simp_all add: representable_reads_back)
  then obtain ta tb where ta: "stringify va = JStr ta" "JSON_parse ta = Inr va"
    and tb: "stringify vb = JStr tb" "JSON_parse tb = Inr vb"
    by (auto dest!: reads_backD)
  show "fst (multiGet [ka, kb] (snd (setItem kb vb (snd (setItem ka va st)))))
          = Inr [(ka, va), (kb, vb)]"
    using ne ta tb by (simp add: multiGet_two setItem_entries parse_pair_def)
  show "fst (multiGet [ka, kb] (snd (setItem ka va (snd (setItem kb vb st)))))
          = Inr [(ka, va), (kb, vb)]"
    using ne ta tb by (simp add: multiGet_two setItem_entries parse_pair_def)
next
  assume ne: "ka \<noteq> kb"
  have a: "entries (snd (setItem kb w (snd (setItem ka (JStr ''hello'') st)))) ka = Some ''hello''"
    using ne by (simp add: setItem_entries_other setItem_entries_string)
  have b: "entries (snd (setItem ka (JStr ''hello'') (snd (setItem kb w st)))) ka = Some ''hello''"
    by (rule setItem_entries_string)
  show "fst (multiGet [ka, kb] (snd (setItem kb w (snd (setItem ka (JStr ''hello'') st)))))
          = Inl SyntaxError"
    by (simp add: multiGet_two a parse_pair_def JSON_parse_hello)
  show "fst (multiGet [ka, kb] (snd (setItem ka (JStr ''hello'') (snd (setItem kb w st)))))
          = Inl SyntaxError"
    by (simp add: multiGet_two b parse_pair_def JSON_parse_hello)
qed

theorem multiGet_positional_witness:
  "fst (multiGet [''b'', ''a''] (empty_storage\<lparr>entries := [''a'' \<mapsto> ''[1]'']\<rparr>))
     = Inr [(''b'', JNull), (''a'', JArr [JNum (Fin 1 0)])]
   \<and> (\<exists>e. fst (multiGet [''b'', ''a''] (empty_storage\<lparr>entries := [''a'' \<mapsto> ''hello'']\<rparr>)) = Inl e)
   \<and> fst (multiGet [''a'', ''b'']
      (snd (setItem ''a'' (JNum (Fin 1 0))
        (snd (setItem ''b'' (JArr [JBool True, JNull]) empty_storage)))))
     = Inr [(''a'', JNum (Fin 1 0)), (''b'', JArr [JBool True, JNull])]
   \<and> fst (multiGet [''a'', ''b'']
      (snd (setItem ''b'' (JNum (Fin 2 0)) (snd (setItem ''a'' (JStr ''hello'') empty_storage)))))
     = Inl SyntaxError"
proof -
  have ne: "''a'' \<noteq> ''b''" by simp
  have r: "representable (JNum (Fin 1 0))" "\<not> is_string (JNum (Fin 1 0))"
    "representable (JArr [JBool True, JNull])" "\<not> is_string (JArr [JBool True, JNull])"
    by simp_all
  let ?s1 = "empty_storage\<lparr>entries := [''a'' \<mapsto> ''[1]'']\<rparr>"
  let ?s2 = "empty_storage\<lparr>entries := [''a'' \<mapsto> ''hello'']\<rparr>"
  let ?f = "\<lambda>k. if k = ''a'' then JArr [JNum (Fin 1 0)] else JNull"
  have g1: "\<forall>k \<in> set [''b'', ''a'']. fst (getItem k ?s1) = Inr (?f k)"
    by (simp add: getItem_result empty_storage_def JSON_parse_arr)
  have g2: "\<exists>k \<in> set [''b'', ''a'']. \<exists>e. fst (getItem k ?s2) = Inl e"
    by (simp add: getItem_result empty_storage_def JSON_parse_hello)
  note t1 = multiGet_positional [where ks = "[''b'', ''a'']" and st = ?s1 and f = ?f]
  note t2 = multiGet_positional [where ks = "[''b'', ''a'']" and st = ?s2]
  note t3 = multiGet_positional [where ka = "''a''" and kb = "''b''"
      and va = "JNum (Fin 1 0)" and vb = "JArr [JBool True, JNull]" and st = empty_storage]
  note t4 = multiGet_positional [where ka = "''a''" and kb = "''b''"
      and w = "JNum (Fin 2 0)" and st = empty_storage]
  from t1 g1 have c1: "fst (multiGet [''b'', ''a''] ?s1)
      = Inr [(''b'', JNull), (''a'', JArr [JNum (Fin 1 0)])]" by simp
  from t2 g2 have c2: "\<exists>e. fst (multiGet [''b'', ''a''] ?s2) = Inl e" by blast
  from t3 ne r have c3: "fst (multiGet [''a'', ''b'']
      (snd (setItem ''a'' (JNum (Fin 1 0))
        (snd (setItem ''b'' (JArr [JBool True, JNull]) empty_storage)))))
     = Inr [(''a'', JNum (Fin 1 0)), (''b'', JArr [JBool True, JNull])]" by blast
  from t4 ne have c4: "fst (multiGet [''a'', ''b'']
      (snd (setItem ''b'' (JNum (Fin 2 0)) (snd (setItem ''a'' (JStr ''hello'') empty_storage)))))
     = Inl SyntaxError" by blast
  from c1 c2 c3 c4 show ?thesis by blast
qed

text \<open>
  C7 (when the compatibility parser reads JSON). \<^verbatim>\<open>isJSON\<close> holds exactly for the texts
  whose first and last characters are \<^verbatim>\<open>{\<close> and \<^verbatim>\<open>}\<close>, or \<^verbatim>\<open>[\<close> and \<^verbatim>\<open>]\<close>. Such a
  text is never number-like, so \<^verbatim>\<open>parseValue\<close> hands it to \<^verbatim>\<open>JSON.parse\<close>; a text
  that is not bracket-delimited is never handed to \<^verbatim>\<open>JSON.parse\<close>: it is read as a
  number when it is number-like and returned unchanged otherwise.
\<close>

theorem parseValue_JSON_branch:
  "(isJSON s \<longleftrightarrow>
      s \<noteq> [] \<and> ((hd s = CHR ''{'' \<and> last s = CHR ''}'') \<or> (hd s = CHR ''['' \<and> last s = CHR '']'')))
   \<and> (isJSON s \<longrightarrow> \<not> isNumber s \<and> parseValue (JStr s) = JSON_parse s)
   \<and> (\<not> isJSON s \<longrightarrow> isNumber s \<longrightarrow> parseValue (JStr s) = Inr (JNum (parseFloat s)))
   \<and> (\<not> isJSON s \<longrightarrow> \<not> isNumber s \<longrightarrow> parseValue (JStr s) = Inr (JStr s))"
  using isJSON_iff [of s] isJSON_not_isNumber [of s]
  by (auto simp: parseValue_def)

theorem parseValue_JSON_branch_witness:
  "(isJSON ''[1]'' \<and> parseValue (JStr ''[1]'') = Inr (JArr [JNum (Fin 1 0)]))
   \<and> (\<not> isJSON ''42'' \<and> isNumber ''42'' \<and> parseValue (JStr ''42'') = Inr (JNum (Fin 42 0)))
   \<and> (\<not> isJSON ''abc'' \<and> \<not> isNumber ''abc'' \<and> parseValue (JStr ''abc'') = Inr (JStr ''abc''))"
  using parseValue_JSON_branch [of "''[1]''"] parseValue_JSON_branch [of "''42''"]
    parseValue_JSON_branch [of "''abc''"]
    isJSON_arr isJSON_42 isJSON_abc isNumber_42 isNumber_abc JSON_parse_arr parseFloat_42
  by simp

text \<open>
  C8 (batch symmetry). After \<^verbatim>\<open>multiSet\<close> of two pairs and \<^verbatim>\<open>multiRemove\<close> of their
  keys, \<^verbatim>\<open>multiGet\<close> of the two keys returns \<^verbatim>\<open>null\<close> for both, for all keys, values
  and stores; \<^verbatim>\<open>multiRemove\<close> succeeds, and so does \<^verbatim>\<open>multiSet\<close> when neither value is
  \<^verbatim>\<open>undefined\<close>.
\<close>

theorem multiSet_multiRemove_multiGet:
  "(v1 \<noteq> JUndefined \<longrightarrow> v2 \<noteq> JUndefined \<longrightarrow>
      fst (multiSet [(k1, v1), (k2, v2)] st) = Inr ())
   \<and> fst (multiRemove [k1, k2] (snd (multiSet [(k1, v1), (k2, v2)] st))) = Inr ()
   \<and> fst (multiGet [k1, k2]
        (snd (multiRemove [k1, k2] (snd (multiSet [(k1, v1), (k2, v2)] st)))))
       = Inr [(k1, JNull), (k2, JNull)]"
  by (simp add: multiSet_def multiRemove_def multiGet_def AsyncStorage_multiSet_def
      AsyncStorage_multiRemove_def AsyncStorage_multiGet_def record_call_def Let_def
      parse_pair_def is_string_stringify)

theorem multiSet_multiRemove_multiGet_witness:
  "fst (multiSet [(''a'', JNum (Fin 1 0)), (''b'', JStr ''x'')] empty_storage) = Inr ()
   \<and> fst (multiGet [''a'', ''b'']
        (snd (multiRemove [''a'', ''b'']
          (snd (multiSet [(''a'', JNum (Fin 1 0)), (''b'', JStr ''x'')] empty_storage)))))
       = Inr [(''a'', JNull), (''b'', JNull)]"
  using multiSet_multiRemove_multiGet
    [of "JNum (Fin 1 0)" "JStr ''x''" "''a''" "''b''" empty_storage]
  by simp



text \<open>
  C10 (\<^verbatim>\<open>parseValue\<close> leaves a non-string unchanged and is idempotent). An exception of
  \<^verbatim>\<open>JSON.parse\<close> is the outcome of \<^verbatim>\<open>parseValue\<close>, so idempotence reads: applying
  \<^verbatim>\<open>parseValue\<close> to the outcome of \<^verbatim>\<open>parseValue\<close> gives that outcome. A string that
  \<^verbatim>\<open>parseValue\<close> returns is its argument, and neither number-like nor bracket-delimited.
\<close>

theorem parseValue_idempotent:
  "(typeof v \<noteq> ''string'' \<longrightarrow> parseValue v = Inr v)
   \<and> (case parseValue v of Inl e \<Rightarrow> Inl e | Inr w \<Rightarrow> parseValue w) = parseValue v
   \<and> (parseValue v = Inr (JStr t) \<longrightarrow> v = JStr t \<and> \<not> isNumber t \<and> \<not> isJSON t)"
  using parseValue_nonstring [of v] parseValue_fixed [of v] parseValue_result_string [of v t]
  by (auto split: sum.splits)

theorem parseValue_idempotent_witness:
  "(typeof JNull \<noteq> ''string'' \<and> parseValue JNull = Inr JNull)
   \<and> (parseValue (JStr ''abc'') = Inr (JStr ''abc'') \<and> \<not> isNumber ''abc'' \<and> \<not> isJSON ''abc'')
   \<and> (case parseValue (JStr ''[1]'') of Inl e \<Rightarrow> Inl e | Inr w \<Rightarrow> parseValue w)
       = Inr (JArr [JNum (Fin 1 0)])"
  using parseValue_idempotent [of JNull] parseValue_idempotent [of "JStr ''abc''" "''abc''"]
    parseValue_idempotent [of "JStr ''[1]''"]
    isJSON_abc isNumber_abc isJSON_arr isJSON_not_isNumber [OF isJSON_arr] JSON_parse_arr
  by (simp add: parseValue_def)

end
